theory Spec2Isabelle
  imports Main
begin

section \<open>The housekeeper of \<^verbatim>\<open>src/server/core/housekeeper.c\<close>\<close>

text \<open>
  The housekeeper keeps a singly linked list of tasks, protected by the spinlock
  \<^verbatim>\<open>tasklock\<close>, and one thread, \<^verbatim>\<open>hkthread\<close>, that sleeps ten times 100 ms,
  reads the wall clock once and then walks the list, calling every task that is due.

  The embedding follows the housekeeper thread, together with the calls made into the
  housekeeper while it runs, by task functions and by other threads. The linked list is a
  HOL list (the field \<^verbatim>\<open>next\<close> is the list structure) and a pointer into it is an
  index. The lock makes every list operation one atomic step, and a call of another
  thread can take effect only where the housekeeper thread does not hold the lock: while
  it sleeps and while a task function runs.

  Time stamps, frequencies and the heartbeat are mathematical integers: the C code adds
  them in \<^verbatim>\<open>time_t\<close> and \<^verbatim>\<open>long\<close>, where signed overflow is undefined, so the
  model describes the executions in which no overflow happens. The wall clock is kept in
  milliseconds and never runs backwards.
\<close>

subsection \<open>Data\<close>

datatype HKTASK_TYPE = HK_REPEATED | HK_ONESHOT

text \<open>
  \<^verbatim>\<open>HKTASK\<close> is declared in \<^verbatim>\<open>housekeeper.h\<close>; the fields are the ones that
  \<^verbatim>\<open>housekeeper.c\<close> reads and writes. A task function and its argument are addresses.
\<close>

record HKTASK =
  name :: string
  task :: nat
  data :: nat
  frequency :: int
  nextdue :: int
  type :: HKTASK_TYPE

text \<open>
  The log of the calls \<^verbatim>\<open>(*taskfn)(taskdata)\<close> made by the housekeeper thread is a
  ghost field: each call records the entry as it stood when the lock was released (after
  \<^verbatim>\<open>nextdue\<close> was written) and the wall-clock second at which the call was made.
\<close>

datatype hk_event = Invoked (called: HKTASK) (called_at: int)

record housekeeper =
  tasks :: "HKTASK list"
  do_shutdown :: bool
  hkheartbeat :: int
  clock_ms :: int
  invoked :: "hk_event list"

text \<open>The static initialisers of the file; the wall clock is whatever it is at start.\<close>

definition hk_initial :: "int \<Rightarrow> housekeeper" where
  "hk_initial ms =
     \<lparr>tasks = [], do_shutdown = False, hkheartbeat = 0, clock_ms = ms, invoked = []\<rparr>"

text \<open>\<^verbatim>\<open>time(0)\<close>: the wall clock in whole seconds.\<close>

definition time_now :: "housekeeper \<Rightarrow> int" where
  "time_now s = clock_ms s div 1000"

text \<open>\<^verbatim>\<open>malloc\<close> and \<^verbatim>\<open>strdup\<close> may return \<^verbatim>\<open>NULL\<close>.\<close>

datatype heap_outcome = Alloc_ok | Malloc_null | Strdup_null

datatype hk_error = AllocationFailure | DuplicateName

text \<open>
  \<^verbatim>\<open>hktask_add\<close> and \<^verbatim>\<open>hktask_oneshot\<close> are declared to return \<^verbatim>\<open>int\<close> and
  return \<^verbatim>\<open>task->nextdue\<close>, a \<^verbatim>\<open>time_t\<close>: the value is converted to a 32-bit
  signed integer, which keeps it when it lies between \<open>- 2^31\<close> and \<open>2^31 - 1\<close> and
  wraps it around otherwise. A failure returns the literal 0.
\<close>

definition int_of_time_t :: "int \<Rightarrow> int" where
  "int_of_time_t t = (t + 2147483648) mod 4294967296 - 2147483648"

fun c_return :: "hk_error + int \<Rightarrow> int" where
  "c_return (Inl e) = 0"
| "c_return (Inr due) = int_of_time_t due"

subsection \<open>\<^verbatim>\<open>hktask_add\<close>\<close>

text \<open>
  The walk of \<^verbatim>\<open>hktask_add\<close>: every entry, the last one included, is compared with
  the new name, whatever its type; \<open>None\<close> is the early \<^verbatim>\<open>return 0\<close>. The result
  of the function is the error, or the \<^verbatim>\<open>nextdue\<close> it has written into the new entry;
  \<open>c_return\<close> turns it into the \<^verbatim>\<open>int\<close> that the caller gets. (The C code reads
  \<^verbatim>\<open>task->nextdue\<close> again for the \<^verbatim>\<open>return\<close>, after it has released the lock; the
  model returns the value written.)
\<close>

fun add_walk :: "HKTASK \<Rightarrow> HKTASK list \<Rightarrow> HKTASK list option" where
  "add_walk new [] = Some [new]"
| "add_walk new [ptr] = (if name ptr = name new then None else Some [ptr, new])"
| "add_walk new (ptr # nxt # rest) =
     (if name ptr = name new then None
      else map_option ((#) ptr) (add_walk new (nxt # rest)))"

definition hktask_add ::
  "heap_outcome \<Rightarrow> string \<Rightarrow> nat \<Rightarrow> nat \<Rightarrow> int \<Rightarrow> housekeeper \<Rightarrow> (hk_error + int) \<times> housekeeper"
where
  "hktask_add heap nm taskfn dat freq s =
     (if heap \<noteq> Alloc_ok then (Inl AllocationFailure, s)
      else
        let new = \<lparr>name = nm, task = taskfn, data = dat, frequency = freq,
                   nextdue = time_now s + freq, type = HK_REPEATED\<rparr>
        in case add_walk new (tasks s) of
             None \<Rightarrow> (Inl DuplicateName, s)
           | Some ts \<Rightarrow> (Inr (nextdue new), s\<lparr>tasks := ts\<rparr>))"

subsection \<open>\<^verbatim>\<open>hktask_oneshot\<close>\<close>

fun oneshot_walk :: "HKTASK \<Rightarrow> HKTASK list \<Rightarrow> HKTASK list" where
  "oneshot_walk new [] = [new]"
| "oneshot_walk new [ptr] = [ptr, new]"
| "oneshot_walk new (ptr # nxt # rest) = ptr # oneshot_walk new (nxt # rest)"

definition hktask_oneshot ::
  "heap_outcome \<Rightarrow> string \<Rightarrow> nat \<Rightarrow> nat \<Rightarrow> int \<Rightarrow> housekeeper \<Rightarrow> (hk_error + int) \<times> housekeeper"
where
  "hktask_oneshot heap nm taskfn dat when s =
     (if heap \<noteq> Alloc_ok then (Inl AllocationFailure, s)
      else
        let new = \<lparr>name = nm, task = taskfn, data = dat, frequency = 0,
                   nextdue = time_now s + when, type = HK_ONESHOT\<rparr>
        in (Inr (nextdue new), s\<lparr>tasks := oneshot_walk new (tasks s)\<rparr>))"

subsection \<open>\<^verbatim>\<open>hktask_remove\<close>\<close>

text \<open>
  The walk stops at the first entry with the name and unlinks it; \<open>None\<close> is the walk
  that reaches the end of the list.
\<close>

fun remove_walk :: "string \<Rightarrow> HKTASK list \<Rightarrow> HKTASK list option" where
  "remove_walk nm [] = None"
| "remove_walk nm (ptr # rest) =
     (if name ptr = nm then Some rest else map_option ((#) ptr) (remove_walk nm rest))"

definition hktask_remove :: "string \<Rightarrow> housekeeper \<Rightarrow> int \<times> housekeeper" where
  "hktask_remove nm s =
     (case remove_walk nm (tasks s) of
        None \<Rightarrow> (0, s)
      | Some ts \<Rightarrow> (1, s\<lparr>tasks := ts\<rparr>))"

subsection \<open>\<^verbatim>\<open>hkshutdown\<close>\<close>

definition hkshutdown :: "housekeeper \<Rightarrow> housekeeper" where
  "hkshutdown s = s\<lparr>do_shutdown := True\<rparr>"

subsection \<open>Task functions\<close>

text \<open>
  The task list and the shutdown flag are \<^verbatim>\<open>static\<close>, so a task function reaches
  the housekeeper only through the four functions above; the heartbeat is a global that
  other code reads and does not write. What a task function does to the housekeeper is
  therefore the sequence of its calls, with the time it spends in between (\<open>Busy\<close>, in
  milliseconds). The program is a parameter: it gives, for a function address, its
  argument and the state in which it is called, the calls that this run of the function
  makes.
\<close>

datatype hk_call =
    Call_add heap_outcome string nat nat int
  | Call_oneshot heap_outcome string nat nat int
  | Call_remove string
  | Call_shutdown
  | Busy nat

type_synonym program = "nat \<Rightarrow> nat \<Rightarrow> housekeeper \<Rightarrow> hk_call list"

fun do_call :: "hk_call \<Rightarrow> housekeeper \<Rightarrow> housekeeper" where
  "do_call (Call_add heap nm taskfn dat freq) s = snd (hktask_add heap nm taskfn dat freq s)"
| "do_call (Call_oneshot heap nm taskfn dat when) s = snd (hktask_oneshot heap nm taskfn dat when s)"
| "do_call (Call_remove nm) s = snd (hktask_remove nm s)"
| "do_call Call_shutdown s = hkshutdown s"
| "do_call (Busy ms) s = s\<lparr>clock_ms := clock_ms s + int ms\<rparr>"

fun do_calls :: "hk_call list \<Rightarrow> housekeeper \<Rightarrow> housekeeper" where
  "do_calls [] s = s"
| "do_calls (c # cs) s = do_calls cs (do_call c s)"

definition call_task :: "program \<Rightarrow> HKTASK \<Rightarrow> housekeeper \<Rightarrow> housekeeper" where
  "call_task P e s =
     do_calls (P (task e) (data e) s) (s\<lparr>invoked := invoked s @ [Invoked e (time_now s)]\<rparr>)"

subsection \<open>\<^verbatim>\<open>hkthread\<close>\<close>

text \<open>
  The body of the branch \<^verbatim>\<open>ptr->nextdue <= now\<close>: write \<^verbatim>\<open>nextdue\<close>, copy
  function, argument, type and name, call the function without the lock, remove a
  one-shot task by the copied name.
\<close>

definition hk_execute :: "program \<Rightarrow> int \<Rightarrow> nat \<Rightarrow> housekeeper \<Rightarrow> housekeeper" where
  "hk_execute P now ptr s =
     (let e = (tasks s ! ptr)\<lparr>nextdue := now + frequency (tasks s ! ptr)\<rparr>;
          s1 = s\<lparr>tasks := (tasks s)[ptr := e]\<rparr>;
          s2 = call_task P e s1
      in if type e = HK_ONESHOT then snd (hktask_remove (name e) s2) else s2)"

text \<open>
  The loop \<^verbatim>\<open>while (ptr)\<close>: \<open>ptr\<close> is the index of the entry the pointer is at, and
  the pointer is \<^verbatim>\<open>NULL\<close> when the index is past the end. The loop can run forever, so
  the result is an option.
\<close>

partial_function (option) scan :: "program \<Rightarrow> int \<Rightarrow> nat \<Rightarrow> housekeeper \<Rightarrow> housekeeper option" where
  "scan P now ptr s =
     (if ptr < length (tasks s) then
        (if nextdue (tasks s ! ptr) \<le> now then scan P now 0 (hk_execute P now ptr s)
         else scan P now (Suc ptr) s)
      else Some s)"

text \<open>
  The same loop, stopped after a given number of iterations: it says what the thread has
  done so far also when the loop never ends.
\<close>

fun scan_steps :: "program \<Rightarrow> int \<Rightarrow> nat \<Rightarrow> nat \<times> housekeeper \<Rightarrow> nat \<times> housekeeper" where
  "scan_steps P now 0 c = c"
| "scan_steps P now (Suc n) (ptr, s) =
     (if ptr < length (tasks s) then
        (if nextdue (tasks s ! ptr) \<le> now then scan_steps P now n (0, hk_execute P now ptr s)
         else scan_steps P now n (Suc ptr, s))
      else (ptr, s))"

text \<open>
  While the housekeeper thread sleeps, other threads may call the housekeeper. These calls
  are the second parameter of the thread: for the state in which a sleep begins, the calls
  that the other threads make during it (a \<open>Busy\<close> among them makes the sleep longer
  than asked for). Calls that other threads make while a task function runs are counted
  among the calls of that run.
\<close>

type_synonym others = "housekeeper \<Rightarrow> hk_call list"

definition thread_millisleep :: "others \<Rightarrow> nat \<Rightarrow> housekeeper \<Rightarrow> housekeeper" where
  "thread_millisleep E ms s = do_calls (E s) (s\<lparr>clock_ms := clock_ms s + int ms\<rparr>)"

text \<open>
  The loop \<^verbatim>\<open>for (i = 0; i < 10; i++)\<close>, counted by the iterations that remain;
  \<open>Inl\<close> is the \<^verbatim>\<open>return\<close> on shutdown.
\<close>

fun hk_ticks :: "others \<Rightarrow> nat \<Rightarrow> housekeeper \<Rightarrow> housekeeper + housekeeper" where
  "hk_ticks E 0 s = Inr s"
| "hk_ticks E (Suc n) s =
     (if do_shutdown s then Inl s
      else hk_ticks E n
             ((thread_millisleep E 100 s)\<lparr>hkheartbeat := hkheartbeat (thread_millisleep E 100 s) + 1\<rparr>))"

text \<open>One round of \<^verbatim>\<open>for (;;)\<close>, and the thread.\<close>

definition hk_cycle :: "others \<Rightarrow> program \<Rightarrow> housekeeper \<Rightarrow> (housekeeper + housekeeper) option" where
  "hk_cycle E P s =
     (case hk_ticks E 10 s of
        Inl s' \<Rightarrow> Some (Inl s')
      | Inr s' \<Rightarrow> map_option Inr (scan P (time_now s') 0 s'))"

partial_function (option) hkthread :: "others \<Rightarrow> program \<Rightarrow> housekeeper \<Rightarrow> housekeeper option" where
  "hkthread E P s =
     (case hk_ticks E 10 s of
        Inl s' \<Rightarrow> Some s'
      | Inr s' \<Rightarrow> Option.bind (scan P (time_now s') 0 s') (hkthread E P))"

subsection \<open>\<^verbatim>\<open>hkshow_tasks\<close>\<close>

text \<open>
  The output of \<^verbatim>\<open>hkshow_tasks\<close> is the sequence of its \<^verbatim>\<open>dcb_printf\<close> calls,
  interleaved with the two lock operations. A row carries the four arguments of the
  format string; the last one stands for the \<^verbatim>\<open>asctime_r\<close> text of \<^verbatim>\<open>nextdue\<close>.
\<close>

datatype dcb_line = Header | Separator | Row string string int int

datatype show_step = Spinlock_acquire | Spinlock_release | Dcb_printf dcb_line

definition show_row :: "HKTASK \<Rightarrow> dcb_line" where
  "show_row ptr =
     Row (name ptr) (if type ptr = HK_REPEATED then ''Repeated'' else ''One-Shot'')
         (frequency ptr) (nextdue ptr)"

definition hkshow_tasks :: "housekeeper \<Rightarrow> show_step list" where
  "hkshow_tasks s =
     [Dcb_printf Header, Dcb_printf Separator, Spinlock_acquire]
     @ map (\<lambda>ptr. Dcb_printf (show_row ptr)) (tasks s)
     @ [Spinlock_release]"

text \<open>
  Every \<^verbatim>\<open>dcb_printf\<close> of a run, paired with whether the lock was held when it was
  made; the first argument is whether the lock is held at the start.
\<close>

fun writes_under_lock :: "bool \<Rightarrow> show_step list \<Rightarrow> (bool \<times> dcb_line) list" where
  "writes_under_lock held [] = []"
| "writes_under_lock held (Spinlock_acquire # steps) = writes_under_lock True steps"
| "writes_under_lock held (Spinlock_release # steps) = writes_under_lock False steps"
| "writes_under_lock held (Dcb_printf l # steps) = (held, l) # writes_under_lock held steps"

section \<open>Notions used in the statements\<close>

text \<open>
  A call inserts a name when it is \<^verbatim>\<open>hktask_add\<close> or \<^verbatim>\<open>hktask_oneshot\<close> with that
  name. A call inserts later when the entry it makes cannot be due in a scan whose clock
  reading is not ahead of the wall clock: the frequency or the delay is at least one
  second.
\<close>

fun inserts_name :: "string \<Rightarrow> hk_call \<Rightarrow> bool" where
  "inserts_name nm (Call_add heap n taskfn dat freq) = (n = nm)"
| "inserts_name nm (Call_oneshot heap n taskfn dat delay) = (n = nm)"
| "inserts_name nm c = False"

fun inserts_later :: "hk_call \<Rightarrow> bool" where
  "inserts_later (Call_add heap nm taskfn dat freq) = (1 \<le> freq)"
| "inserts_later (Call_oneshot heap nm taskfn dat when) = (1 \<le> when)"
| "inserts_later c = True"

text \<open>Every repeated entry of the list has a frequency of at least one second.\<close>

definition repeated_positive :: "HKTASK list \<Rightarrow> bool" where
  "repeated_positive ts = (\<forall>t\<in>set ts. type t = HK_REPEATED \<longrightarrow> 1 \<le> frequency t)"

text \<open>
  The calls of a scan all carry the \<^verbatim>\<open>nextdue\<close> computed from the scan's clock
  reading, and none was made before that reading.
\<close>

definition stamped :: "int \<Rightarrow> hk_event list \<Rightarrow> bool" where
  "stamped now evs =
     (\<forall>ev\<in>set evs. nextdue (called ev) = now + frequency (called ev) \<and> now \<le> called_at ev)"

text \<open>The entries of a list that bear a name, and the calls of a log made for a name.\<close>

definition named :: "string \<Rightarrow> HKTASK list \<Rightarrow> HKTASK list" where
  "named nm ts = filter (\<lambda>t. name t = nm) ts"

definition calls_of :: "string \<Rightarrow> hk_event list \<Rightarrow> hk_event list" where
  "calls_of nm evs = filter (\<lambda>ev. name (called ev) = nm) evs"

subsection \<open>Measures for the termination of a scan\<close>

text \<open>
  The number of due entries, and the sum over the due entries of their positions in the
  list (counted from one). Removing an entry, or making a due entry not due, lowers the
  sum whenever a due entry stands at or behind the place of the change.
\<close>

definition due_count :: "int \<Rightarrow> HKTASK list \<Rightarrow> nat" where
  "due_count now ts = length (filter (\<lambda>t. nextdue t \<le> now) ts)"

fun due_weight :: "int \<Rightarrow> HKTASK list \<Rightarrow> nat" where
  "due_weight now [] = 0"
| "due_weight now (t # ts) =
     (if nextdue t \<le> now then 1 else 0) + due_count now ts + due_weight now ts"

definition keeps_due :: "int \<Rightarrow> HKTASK list \<Rightarrow> HKTASK list \<Rightarrow> bool" where
  "keeps_due now ts ts' =
     (due_weight now ts' < due_weight now ts \<or> (\<forall>t\<in>set ts. nextdue t \<le> now \<longrightarrow> t \<in> set ts'))"

subsection \<open>Calls that leave the list alone, and programs that insert once\<close>

text \<open>
  A call is inert when it neither inserts nor removes a task: it asks for the shutdown or
  lets time pass. \<open>rescheduled\<close> is what a scan does to an entry when every task
  function is inert: a due entry gets \<^verbatim>\<open>nextdue = now + frequency\<close>, any other
  entry stays as it is.
\<close>

fun inert :: "hk_call \<Rightarrow> bool" where
  "inert Call_shutdown = True"
| "inert (Busy ms) = True"
| "inert c = False"

definition rescheduled :: "int \<Rightarrow> HKTASK \<Rightarrow> HKTASK" where
  "rescheduled now t = (if nextdue t \<le> now then t\<lparr>nextdue := now + frequency t\<rparr> else t)"



subsection \<open>Example registries and programs\<close>

text \<open>
  Concrete entries and states for the examples. In the programs, the task function at
  address 1 is slow, the one at address 2 removes the task \<open>boot\<close>, the one at address 9
  shuts the housekeeper down, and every other one makes no call. The other threads are
  either quiet or ask for the shutdown during the fourth sleep.
\<close>

definition entry :: "string \<Rightarrow> nat \<Rightarrow> HKTASK_TYPE \<Rightarrow> int \<Rightarrow> int \<Rightarrow> HKTASK" where
  "entry nm taskfn ty freq due =
     \<lparr>name = nm, task = taskfn, data = 0, frequency = freq, nextdue = due, type = ty\<rparr>"

definition registry :: "HKTASK list \<Rightarrow> int \<Rightarrow> housekeeper" where
  "registry ts ms =
     \<lparr>tasks = ts, do_shutdown = False, hkheartbeat = 0, clock_ms = ms, invoked = []\<rparr>"

definition idle :: program where
  "idle taskfn dat s = []"

definition quiet :: others where
  "quiet s = []"

definition stop_at_three :: others where
  "stop_at_three s = (if hkheartbeat s = 3 then [Call_shutdown] else [])"

definition demo :: program where
  "demo taskfn dat s =
     (if taskfn = 1 then [Busy 1500, Call_oneshot Alloc_ok ''late'' 3 0 2]
      else if taskfn = 2 then [Call_remove ''boot'']
      else if taskfn = 9 then [Call_shutdown]
      else [])"

definition slow :: program where
  "slow taskfn dat s = (if taskfn = 1 then [Busy 5000] else [])"



section \<open>Properties of the list operations and of the scan\<close>

subsection \<open>The walks of the list\<close>

lemma add_walk_eq:
  "add_walk new ts = (if name new \<in> name ` set ts then None else Some (ts @ [new]))"
  by (induction new ts rule: add_walk.induct) auto

lemma oneshot_walk_eq: "oneshot_walk new ts = ts @ [new]"
  by (induction new ts rule: oneshot_walk.induct) auto

lemma remove_walk_None: "remove_walk nm ts = None \<longleftrightarrow> nm \<notin> name ` set ts"
  by (induction ts) auto

lemma remove_walk_first:
  "nm \<notin> name ` set pre \<Longrightarrow> name e = nm \<Longrightarrow> remove_walk nm (pre @ e # post) = Some (pre @ post)"
  by (induction pre) auto

lemma first_match_split:
  "nm \<in> name ` set ts \<Longrightarrow> \<exists>pre e post. ts = pre @ e # post \<and> name e = nm \<and> nm \<notin> name ` set pre"
proof (induction ts)
  case Nil
  then show ?case by simp
next
  case (Cons t ts)
  show ?case
  proof (cases "name t = nm")
    case True
    then have "t # ts = [] @ t # ts \<and> name t = nm \<and> nm \<notin> name ` set []" by simp
    then show ?thesis by (intro exI)
  next
    case False
    with Cons.prems have "nm \<in> name ` set ts" by auto
    from Cons.IH[OF this] obtain pre e post
      where "ts = pre @ e # post" "name e = nm" "nm \<notin> name ` set pre" by blast
    with False have "t # ts = (t # pre) @ e # post \<and> name e = nm \<and> nm \<notin> name ` set (t # pre)"
      by auto
    then show ?thesis by (intro exI)
  qed
qed


lemma writes_under_lock_rows:
  "writes_under_lock held (map (\<lambda>ptr. Dcb_printf (f ptr)) ts @ steps)
     = map (\<lambda>ptr. (held, f ptr)) ts @ writes_under_lock held steps"
  by (induction ts) simp_all

lemma hkshow_tasks_writes:
  "writes_under_lock False (hkshow_tasks s)
     = [(False, Header), (False, Separator)]
       @ map (\<lambda>ptr. (True, Row (name ptr)
                (if type ptr = HK_REPEATED then ''Repeated'' else ''One-Shot'')
                (frequency ptr) (nextdue ptr))) (tasks s)"
  by (simp add: hkshow_tasks_def writes_under_lock_rows show_row_def)

lemma hkshow_tasks_lock_steps:
  "filter (\<lambda>st. st = Spinlock_acquire \<or> st = Spinlock_release) (hkshow_tasks s)
     = [Spinlock_acquire, Spinlock_release]"
  by (simp add: hkshow_tasks_def filter_map o_def)

lemma remove_walk_takeWhile:
  "remove_walk nm ts =
     (if nm \<in> name ` set ts
      then Some (takeWhile (\<lambda>t. name t \<noteq> nm) ts @ tl (dropWhile (\<lambda>t. name t \<noteq> nm) ts))
      else None)"
  by (induction ts) auto

lemma takeWhile_absent:
  "nm \<notin> name ` set ts \<Longrightarrow>
     takeWhile (\<lambda>t. name t \<noteq> nm) ts @ tl (dropWhile (\<lambda>t. name t \<noteq> nm) ts) = ts"
  by (induction ts) auto

subsection \<open>What the calls leave as it is\<close>

lemma tasks_hktask_add:
  "tasks (snd (hktask_add heap nm taskfn dat freq s)) =
     (if heap = Alloc_ok \<and> nm \<notin> name ` set (tasks s)
      then tasks s @ [\<lparr>name = nm, task = taskfn, data = dat, frequency = freq,
                        nextdue = time_now s + freq, type = HK_REPEATED\<rparr>]
      else tasks s)"
  by (simp add: hktask_add_def add_walk_eq Let_def)

lemma tasks_hktask_oneshot:
  "tasks (snd (hktask_oneshot heap nm taskfn dat when s)) =
     (if heap = Alloc_ok
      then tasks s @ [\<lparr>name = nm, task = taskfn, data = dat, frequency = 0,
                        nextdue = time_now s + when, type = HK_ONESHOT\<rparr>]
      else tasks s)"
  by (simp add: hktask_oneshot_def oneshot_walk_eq Let_def)

lemma tasks_hktask_remove:
  "tasks (snd (hktask_remove nm s)) =
     (case remove_walk nm (tasks s) of None \<Rightarrow> tasks s | Some ts \<Rightarrow> ts)"
  by (simp add: hktask_remove_def split: option.split)

lemma hktask_add_frame:
  "invoked (snd (hktask_add heap nm taskfn dat freq s)) = invoked s"
  "hkheartbeat (snd (hktask_add heap nm taskfn dat freq s)) = hkheartbeat s"
  "clock_ms (snd (hktask_add heap nm taskfn dat freq s)) = clock_ms s"
  by (simp_all add: hktask_add_def Let_def split: option.split)

lemma hktask_oneshot_frame:
  "invoked (snd (hktask_oneshot heap nm taskfn dat when s)) = invoked s"
  "hkheartbeat (snd (hktask_oneshot heap nm taskfn dat when s)) = hkheartbeat s"
  "clock_ms (snd (hktask_oneshot heap nm taskfn dat when s)) = clock_ms s"
  by (simp_all add: hktask_oneshot_def Let_def)

lemma hktask_remove_frame:
  "invoked (snd (hktask_remove nm s)) = invoked s"
  "hkheartbeat (snd (hktask_remove nm s)) = hkheartbeat s"
  "clock_ms (snd (hktask_remove nm s)) = clock_ms s"
  by (simp_all add: hktask_remove_def split: option.split)

lemma do_call_frame:
  "invoked (do_call c s) = invoked s"
  "hkheartbeat (do_call c s) = hkheartbeat s"
  "clock_ms s \<le> clock_ms (do_call c s)"
  by (cases c; simp add: hktask_add_frame hktask_oneshot_frame hktask_remove_frame hkshutdown_def)+

lemma do_calls_frame:
  "invoked (do_calls cs s) = invoked s"
  "hkheartbeat (do_calls cs s) = hkheartbeat s"
  "clock_ms s \<le> clock_ms (do_calls cs s)"
proof (induction cs arbitrary: s)
  case Nil
  { case 1 show ?case by simp }
  { case 2 show ?case by simp }
  { case 3 show ?case by simp }
next
  case (Cons c cs)
  { case 1 show ?case by (simp add: Cons.IH(1) do_call_frame(1)) }
  { case 2 show ?case by (simp add: Cons.IH(2) do_call_frame(2)) }
  { case 3 show ?case using Cons.IH(3)[of "do_call c s"] do_call_frame(3)[of s c] by simp }
qed

lemma time_now_mono: "clock_ms s \<le> clock_ms s' \<Longrightarrow> time_now s \<le> time_now s'"
  by (simp add: time_now_def zdiv_mono1)

subsection \<open>The measure under removal and update\<close>

lemma due_count_Cons:
  "due_count now (t # ts) = (if nextdue t \<le> now then 1 else 0) + due_count now ts"
  by (simp add: due_count_def)

lemma due_count_Nil: "due_count now [] = 0"
  by (simp add: due_count_def)

lemma due_count_snoc:
  "now < nextdue e \<Longrightarrow> due_count now (ts @ [e]) = due_count now ts"
  by (simp add: due_count_def)

lemma due_weight_snoc:
  "now < nextdue e \<Longrightarrow> due_weight now (ts @ [e]) = due_weight now ts"
  by (induction ts) (simp_all add: due_count_snoc due_count_Nil)

lemma due_count_le_weight: "due_count now ts \<le> due_weight now ts"
  by (induction ts) (simp_all add: due_count_Cons due_count_Nil)

lemma due_count_pos: "t \<in> set ts \<Longrightarrow> nextdue t \<le> now \<Longrightarrow> 0 < due_count now ts"
  by (induction ts) (auto simp: due_count_Cons)

lemma remove_walk_weight:
  "remove_walk n ts = Some ts' \<Longrightarrow>
     due_count now ts' \<le> due_count now ts \<and> due_weight now ts' \<le> due_weight now ts"
proof (induction ts arbitrary: ts')
  case Nil
  then show ?case by simp
next
  case (Cons p rest)
  show ?case
  proof (cases "name p = n")
    case True
    with Cons.prems have "ts' = rest" by simp
    then show ?thesis by (simp add: due_count_Cons)
  next
    case False
    with Cons.prems obtain rest' where r: "remove_walk n rest = Some rest'" "ts' = p # rest'"
      by auto
    from Cons.IH[OF r(1)] r(2) show ?thesis by (simp add: due_count_Cons)
  qed
qed

lemma remove_walk_keeps_or_less:
  "remove_walk n ts = Some ts' \<Longrightarrow>
     due_weight now ts' < due_weight now ts \<or> (\<forall>t\<in>set ts. nextdue t \<le> now \<longrightarrow> t \<in> set ts')"
proof (induction ts arbitrary: ts')
  case Nil
  then show ?case by simp
next
  case (Cons p rest)
  show ?case
  proof (cases "name p = n")
    case True
    with Cons.prems have eq: "ts' = rest" by simp
    show ?thesis
    proof (cases "nextdue p \<le> now")
      case True
      with eq show ?thesis by simp
    next
      case False
      with eq show ?thesis by auto
    qed
  next
    case False
    with Cons.prems obtain rest' where r: "remove_walk n rest = Some rest'" "ts' = p # rest'"
      by auto
    from remove_walk_weight[OF r(1), of now] Cons.IH[OF r(1)] r(2) show ?thesis
      by auto
  qed
qed

lemma remove_walk_strict:
  "remove_walk nm ts = Some ts' \<Longrightarrow> t \<in> set ts \<Longrightarrow> name t = nm \<Longrightarrow> nextdue t \<le> now \<Longrightarrow>
     due_weight now ts' < due_weight now ts"
proof (induction ts arbitrary: ts')
  case Nil
  then show ?case by simp
next
  case (Cons p rest)
  show ?case
  proof (cases "name p = nm")
    case True
    with Cons.prems(1) have eq: "ts' = rest" by simp
    show ?thesis
    proof (cases "t = p")
      case True
      with Cons.prems(4) eq show ?thesis by simp
    next
      case False
      with Cons.prems(2) have "t \<in> set rest" by simp
      from due_count_pos[OF this Cons.prems(4)] eq show ?thesis by simp
    qed
  next
    case False
    with Cons.prems(1) obtain rest' where r: "remove_walk nm rest = Some rest'" "ts' = p # rest'"
      by auto
    from False Cons.prems(2,3) have "t \<in> set rest" by auto
    from Cons.IH[OF r(1) this Cons.prems(3,4)] remove_walk_weight[OF r(1), of now] r(2)
    show ?thesis by simp
  qed
qed

lemma update_weight_less:
  "i < length L \<Longrightarrow> nextdue (L ! i) \<le> now \<Longrightarrow> now < nextdue e \<Longrightarrow>
     due_count now (L[i := e]) < due_count now L \<and> due_weight now (L[i := e]) < due_weight now L"
proof (induction L arbitrary: i)
  case Nil
  then show ?case by simp
next
  case (Cons p rest)
  show ?case
  proof (cases i)
    case 0
    with Cons.prems show ?thesis by (simp add: due_count_Cons)
  next
    case (Suc j)
    with Cons.prems have "j < length rest" "nextdue (rest ! j) \<le> now" by simp_all
    from Cons.IH[OF this Cons.prems(3)] Suc show ?thesis by (simp add: due_count_Cons)
  qed
qed

lemma update_weight_same:
  "i < length L \<Longrightarrow> nextdue (L ! i) \<le> now \<Longrightarrow> nextdue e \<le> now \<Longrightarrow>
     due_count now (L[i := e]) = due_count now L \<and> due_weight now (L[i := e]) = due_weight now L"
proof (induction L arbitrary: i)
  case Nil
  then show ?case by simp
next
  case (Cons p rest)
  show ?case
  proof (cases i)
    case 0
    with Cons.prems show ?thesis by (simp add: due_count_Cons)
  next
    case (Suc j)
    with Cons.prems have "j < length rest" "nextdue (rest ! j) \<le> now" by simp_all
    from Cons.IH[OF this Cons.prems(3)] Suc show ?thesis by (simp add: due_count_Cons)
  qed
qed

lemma remove_walk_subset: "remove_walk n ts = Some ts' \<Longrightarrow> set ts' \<subseteq> set ts"
proof (induction ts arbitrary: ts')
  case Nil
  then show ?case by simp
next
  case (Cons p rest)
  then show ?case by (cases "name p = n") auto
qed

subsection \<open>Calls that insert later\<close>

lemma time_now_add [simp]: "time_now (snd (hktask_add heap nm taskfn dat freq s)) = time_now s"
  by (simp add: time_now_def hktask_add_frame)

lemma time_now_oneshot [simp]: "time_now (snd (hktask_oneshot heap nm taskfn dat when s)) = time_now s"
  by (simp add: time_now_def hktask_oneshot_frame)

lemma time_now_remove [simp]: "time_now (snd (hktask_remove nm s)) = time_now s"
  by (simp add: time_now_def hktask_remove_frame)

lemma repeated_positive_snoc:
  "repeated_positive ts \<Longrightarrow> type e = HK_REPEATED \<longrightarrow> 1 \<le> frequency e \<Longrightarrow> repeated_positive (ts @ [e])"
  by (simp add: repeated_positive_def)

lemma repeated_positive_subset:
  "repeated_positive ts \<Longrightarrow> set ts' \<subseteq> set ts \<Longrightarrow> repeated_positive ts'"
  by (auto simp: repeated_positive_def)

lemma keeps_due_refl: "keeps_due now ts ts"
  by (simp add: keeps_due_def)

lemma keeps_due_trans:
  "keeps_due now ts ts' \<Longrightarrow> keeps_due now ts' ts'' \<Longrightarrow>
   due_weight now ts' \<le> due_weight now ts \<Longrightarrow> due_weight now ts'' \<le> due_weight now ts' \<Longrightarrow>
   keeps_due now ts ts''"
  unfolding keeps_due_def by (meson le_less_trans less_le_trans)

lemma do_call_later:
  assumes "inserts_later c" and "now \<le> time_now s" and "repeated_positive (tasks s)"
  shows "now \<le> time_now (do_call c s)"
    and "repeated_positive (tasks (do_call c s))"
    and "due_weight now (tasks (do_call c s)) \<le> due_weight now (tasks s)"
    and "keeps_due now (tasks s) (tasks (do_call c s))"
proof -
  have "now \<le> time_now (do_call c s) \<and> repeated_positive (tasks (do_call c s))
      \<and> due_weight now (tasks (do_call c s)) \<le> due_weight now (tasks s)
      \<and> keeps_due now (tasks s) (tasks (do_call c s))"
  proof (cases c)
    case (Call_add heap nm taskfn dat freq)
    with assms(1) have f: "1 \<le> freq" by simp
    with assms(2) have later: "now < time_now s + freq" by simp
    show ?thesis
      using assms(2,3) f later
      by (simp add: Call_add tasks_hktask_add due_weight_snoc repeated_positive_snoc keeps_due_def)
  next
    case (Call_oneshot heap nm taskfn dat delay)
    with assms(1) have f: "1 \<le> delay" by simp
    with assms(2) have later: "now < time_now s + delay" by simp
    show ?thesis
      using assms(2,3) later
      by (simp add: Call_oneshot tasks_hktask_oneshot due_weight_snoc repeated_positive_snoc keeps_due_def)
  next
    case (Call_remove nm)
    show ?thesis
    proof (cases "remove_walk nm (tasks s)")
      case None
      with assms(2,3) show ?thesis by (simp add: Call_remove tasks_hktask_remove keeps_due_def)
    next
      case (Some ts')
      from remove_walk_weight[OF Some, of now] remove_walk_keeps_or_less[OF Some, of now]
           repeated_positive_subset[OF assms(3) remove_walk_subset[OF Some]] assms(2)
      show ?thesis by (simp add: Call_remove tasks_hktask_remove Some keeps_due_def)
    qed
  next
    case Call_shutdown
    with assms(2,3) show ?thesis by (simp add: hkshutdown_def time_now_def keeps_due_def)
  next
    case (Busy ms)
    have "time_now s \<le> time_now (s\<lparr>clock_ms := clock_ms s + int ms\<rparr>)"
      by (rule time_now_mono) simp
    with assms(2,3) show ?thesis by (simp add: Busy keeps_due_def)
  qed
  then show "now \<le> time_now (do_call c s)"
    and "repeated_positive (tasks (do_call c s))"
    and "due_weight now (tasks (do_call c s)) \<le> due_weight now (tasks s)"
    and "keeps_due now (tasks s) (tasks (do_call c s))" by simp_all
qed

lemma do_calls_later:
  assumes "\<forall>c\<in>set cs. inserts_later c" and "now \<le> time_now s" and "repeated_positive (tasks s)"
  shows "now \<le> time_now (do_calls cs s) \<and> repeated_positive (tasks (do_calls cs s))
      \<and> due_weight now (tasks (do_calls cs s)) \<le> due_weight now (tasks s)
      \<and> keeps_due now (tasks s) (tasks (do_calls cs s))"
  using assms
proof (induction cs arbitrary: s)
  case Nil
  then show ?case by (simp add: keeps_due_refl)
next
  case (Cons c cs)
  from Cons.prems(1) have c: "inserts_later c" and cs: "\<forall>c\<in>set cs. inserts_later c" by simp_all
  note step = do_call_later[OF c Cons.prems(2,3)]
  from Cons.IH[OF cs step(1,2)]
  have ih: "now \<le> time_now (do_calls cs (do_call c s))"
    "repeated_positive (tasks (do_calls cs (do_call c s)))"
    "due_weight now (tasks (do_calls cs (do_call c s))) \<le> due_weight now (tasks (do_call c s))"
    "keeps_due now (tasks (do_call c s)) (tasks (do_calls cs (do_call c s)))" by simp_all
  from keeps_due_trans[OF step(4) ih(4) step(3) ih(3)] ih step(3)
  show ?case by simp
qed

subsection \<open>The call of a due task lowers the measure\<close>

lemma hk_execute_eq:
  "hk_execute P now ptr s =
     (if type (tasks s ! ptr) = HK_ONESHOT
      then snd (hktask_remove (name (tasks s ! ptr))
             (call_task P ((tasks s ! ptr)\<lparr>nextdue := now + frequency (tasks s ! ptr)\<rparr>)
                (s\<lparr>tasks := (tasks s)[ptr := (tasks s ! ptr)\<lparr>nextdue := now + frequency (tasks s ! ptr)\<rparr>]\<rparr>)))
      else call_task P ((tasks s ! ptr)\<lparr>nextdue := now + frequency (tasks s ! ptr)\<rparr>)
                (s\<lparr>tasks := (tasks s)[ptr := (tasks s ! ptr)\<lparr>nextdue := now + frequency (tasks s ! ptr)\<rparr>]\<rparr>))"
  by (simp add: hk_execute_def Let_def)

lemma call_task_later:
  assumes "\<forall>f d s'. \<forall>c\<in>set (P f d s'). inserts_later c"
    and "now \<le> time_now s" and "repeated_positive (tasks s)"
  shows "now \<le> time_now (call_task P e s) \<and> repeated_positive (tasks (call_task P e s))
      \<and> due_weight now (tasks (call_task P e s)) \<le> due_weight now (tasks s)
      \<and> keeps_due now (tasks s) (tasks (call_task P e s))"
proof -
  let ?s = "s\<lparr>invoked := invoked s @ [Invoked e (time_now s)]\<rparr>"
  have a: "\<forall>c\<in>set (P (task e) (data e) s). inserts_later c" using assms(1) by blast
  have b: "now \<le> time_now ?s" using assms(2) by (simp add: time_now_def)
  have c: "repeated_positive (tasks ?s)" using assms(3) by simp
  from do_calls_later[OF a b c] show ?thesis by (simp add: call_task_def)
qed

lemma hk_execute_later:
  assumes prog: "\<forall>f d s'. \<forall>c\<in>set (P f d s'). inserts_later c"
    and ptr: "ptr < length (tasks s)"
    and due: "nextdue (tasks s ! ptr) \<le> now"
    and clk: "now \<le> time_now s"
    and rp: "repeated_positive (tasks s)"
  shows "now \<le> time_now (hk_execute P now ptr s)"
    and "repeated_positive (tasks (hk_execute P now ptr s))"
    and "due_weight now (tasks (hk_execute P now ptr s)) < due_weight now (tasks s)"
proof -
  define e0 where "e0 = tasks s ! ptr"
  define e where "e = e0\<lparr>nextdue := now + frequency e0\<rparr>"
  define s1 where "s1 = s\<lparr>tasks := (tasks s)[ptr := e]\<rparr>"
  define s2 where "s2 = call_task P e s1"
  have e0_in: "e0 \<in> set (tasks s)" using ptr by (simp add: e0_def)
  have ex: "hk_execute P now ptr s =
      (if type e0 = HK_ONESHOT then snd (hktask_remove (name e0) s2) else s2)"
    by (simp add: hk_execute_eq e0_def e_def s1_def s2_def)
  have "set (tasks s1) \<subseteq> insert e (set (tasks s))"
    by (simp add: s1_def set_update_subset_insert)
  moreover have "type e = HK_REPEATED \<longrightarrow> 1 \<le> frequency e"
    using rp e0_in by (simp add: e_def repeated_positive_def)
  ultimately have rp1: "repeated_positive (tasks s1)"
    using rp by (auto simp: repeated_positive_def)
  have clk1: "now \<le> time_now s1" using clk by (simp add: s1_def time_now_def)
  have e_in: "e \<in> set (tasks s1)" using ptr by (simp add: s1_def set_update_memI)
  from call_task_later[OF prog clk1 rp1, of e]
  have c2: "now \<le> time_now s2" "repeated_positive (tasks s2)"
    "due_weight now (tasks s2) \<le> due_weight now (tasks s1)"
    "keeps_due now (tasks s1) (tasks s2)" by (simp_all add: s2_def)
  have fin_le: "due_weight now (tasks (hk_execute P now ptr s)) \<le> due_weight now (tasks s2)"
  proof (cases "remove_walk (name e0) (tasks s2)")
    case None
    then show ?thesis by (simp add: ex tasks_hktask_remove)
  next
    case (Some ts')
    from remove_walk_weight[OF Some, of now] show ?thesis
      by (simp add: ex tasks_hktask_remove Some)
  qed
  have fin_rp: "repeated_positive (tasks (hk_execute P now ptr s))"
  proof (cases "remove_walk (name e0) (tasks s2)")
    case None
    with c2(2) show ?thesis by (simp add: ex tasks_hktask_remove)
  next
    case (Some ts')
    from repeated_positive_subset[OF c2(2) remove_walk_subset[OF Some]] c2(2) show ?thesis
      by (simp add: ex tasks_hktask_remove Some)
  qed
  have fin_clk: "now \<le> time_now (hk_execute P now ptr s)"
    using c2(1) by (simp add: ex)
  have less: "due_weight now (tasks (hk_execute P now ptr s)) < due_weight now (tasks s)"
  proof (cases "now < nextdue e")
    case True
    from update_weight_less[OF ptr due True]
    have "due_weight now (tasks s1) < due_weight now (tasks s)" by (simp add: s1_def)
    with c2(3) fin_le show ?thesis by simp
  next
    case False
    then have still: "nextdue e \<le> now" by simp
    from update_weight_same[OF ptr due still]
    have same: "due_weight now (tasks s1) = due_weight now (tasks s)" by (simp add: s1_def)
    have "\<not> 1 \<le> frequency e0" using still by (simp add: e_def)
    with rp e0_in have "type e0 \<noteq> HK_REPEATED" by (auto simp: repeated_positive_def)
    then have one: "type e0 = HK_ONESHOT" by (cases "type e0") simp_all
    show ?thesis
    proof (cases "due_weight now (tasks s2) < due_weight now (tasks s1)")
      case True
      with fin_le same show ?thesis by simp
    next
      case False
      with c2(4) e_in still have e_in2: "e \<in> set (tasks s2)" by (simp add: keeps_due_def)
      have nm: "name e = name e0" by (simp add: e_def)
      from e_in2 have "name e \<in> name ` set (tasks s2)" by (rule imageI)
      with nm have "name e0 \<in> name ` set (tasks s2)" by simp
      then obtain ts' where rw: "remove_walk (name e0) (tasks s2) = Some ts'"
        using remove_walk_None[of "name e0" "tasks s2"] by (cases "remove_walk (name e0) (tasks s2)") auto
      from remove_walk_strict[OF rw e_in2 nm still]
      have "due_weight now ts' < due_weight now (tasks s2)" .
      with c2(3) same show ?thesis by (simp add: ex one tasks_hktask_remove rw)
    qed
  qed
  from fin_clk fin_rp less
  show "now \<le> time_now (hk_execute P now ptr s)"
    and "repeated_positive (tasks (hk_execute P now ptr s))"
    and "due_weight now (tasks (hk_execute P now ptr s)) < due_weight now (tasks s)" by simp_all
qed

lemma scan_returns:
  assumes prog: "\<forall>f d s'. \<forall>c\<in>set (P f d s'). inserts_later c"
  shows "now \<le> time_now s \<Longrightarrow> repeated_positive (tasks s) \<Longrightarrow> \<exists>s'. scan P now ptr s = Some s'"
proof (induction "due_weight now (tasks s)" arbitrary: s ptr rule: less_induct)
  case less
  note outer = less
  show ?case
  proof (induction "length (tasks s) - ptr" arbitrary: ptr rule: less_induct)
    case less
    show ?case
    proof (cases "ptr < length (tasks s)")
      case False
      then have "scan P now ptr s = Some s" by (subst scan.simps) simp
      then show ?thesis by simp
    next
      case True
      show ?thesis
      proof (cases "nextdue (tasks s ! ptr) \<le> now")
        case due: True
        note ex = hk_execute_later[OF prog True due outer(2,3)]
        from outer(1)[OF ex(3) ex(1) ex(2)]
        obtain s' where "scan P now 0 (hk_execute P now ptr s) = Some s'" by blast
        moreover have "scan P now ptr s = scan P now 0 (hk_execute P now ptr s)"
          using True due by (subst scan.simps) simp
        ultimately show ?thesis by simp
      next
        case notdue: False
        have "length (tasks s) - Suc ptr < length (tasks s) - ptr" using True by simp
        from less(1)[OF this] obtain s' where "scan P now (Suc ptr) s = Some s'" by blast
        moreover have "scan P now ptr s = scan P now (Suc ptr) s"
          using True notdue by (subst scan.simps) simp
        ultimately show ?thesis by simp
      qed
    qed
  qed
qed

subsection \<open>The scan and its bounded runs\<close>

lemma scan_steps_invariant:
  assumes "I (ptr, s)"
    and "\<And>ptr s. I (ptr, s) \<Longrightarrow> ptr < length (tasks s) \<Longrightarrow> nextdue (tasks s ! ptr) \<le> now
           \<Longrightarrow> I (0, hk_execute P now ptr s)"
    and "\<And>ptr s. I (ptr, s) \<Longrightarrow> ptr < length (tasks s) \<Longrightarrow> \<not> nextdue (tasks s ! ptr) \<le> now
           \<Longrightarrow> I (Suc ptr, s)"
  shows "I (scan_steps P now n (ptr, s))"
  using assms(1)
proof (induction n arbitrary: ptr s)
  case 0
  then show ?case by simp
next
  case (Suc n)
  show ?case
  proof (cases "ptr < length (tasks s)")
    case False
    with Suc.prems show ?thesis by simp
  next
    case True
    show ?thesis
    proof (cases "nextdue (tasks s ! ptr) \<le> now")
      case due: True
      from Suc.IH[OF assms(2)[OF Suc.prems True due]] True due show ?thesis by simp
    next
      case notdue: False
      from Suc.IH[OF assms(3)[OF Suc.prems True notdue]] True notdue show ?thesis by simp
    qed
  qed
qed

lemma scan_Some_steps:
  assumes "scan P now ptr s = Some s'"
  shows "\<exists>n k. scan_steps P now n (ptr, s) = (k, s') \<and> \<not> k < length (tasks s')"
proof -
  let ?Q = "\<lambda>(((P, now), ptr), s) s'.
     \<exists>n k. scan_steps P now n (ptr, s) = (k, s') \<and> \<not> k < length (tasks s')"
  have "?Q (((P, now), ptr), s) s'"
  proof (rule scan.raw_induct[where Pa = ?Q, OF _ assms])
    fix scan' :: "program \<Rightarrow> int \<Rightarrow> nat \<Rightarrow> housekeeper \<Rightarrow> housekeeper option"
      and P :: program and now :: int and ptr :: nat and s y :: housekeeper
    assume IH: "\<And>P now ptr s y. scan' P now ptr s = Some y \<Longrightarrow> ?Q (((P, now), ptr), s) y"
      and body: "(if ptr < length (tasks s)
                  then if nextdue (tasks s ! ptr) \<le> now
                       then scan' P now 0 (hk_execute P now ptr s)
                       else scan' P now (Suc ptr) s
                  else Some s) = Some y"
    show "?Q (((P, now), ptr), s) y"
    proof (cases "ptr < length (tasks s)")
      case False
      with body have "y = s" by simp
      with False have fin: "scan_steps P now 0 (ptr, s) = (ptr, y) \<and> \<not> ptr < length (tasks y)"
        by simp
      have "\<exists>n k. scan_steps P now n (ptr, s) = (k, y) \<and> \<not> k < length (tasks y)"
        by (rule exI[where x=0], rule exI[where x=ptr], rule fin)
      then show ?thesis by simp
    next
      case True
      show ?thesis
      proof (cases "nextdue (tasks s ! ptr) \<le> now")
        case due: True
        with True body have "scan' P now 0 (hk_execute P now ptr s) = Some y" by simp
        from IH[OF this] obtain n k
          where "scan_steps P now n (0, hk_execute P now ptr s) = (k, y)" "\<not> k < length (tasks y)"
          by auto
        with True due
        have fin: "scan_steps P now (Suc n) (ptr, s) = (k, y) \<and> \<not> k < length (tasks y)"
          by simp
        have "\<exists>n k. scan_steps P now n (ptr, s) = (k, y) \<and> \<not> k < length (tasks y)"
          by (rule exI[where x="Suc n"], rule exI[where x=k], rule fin)
        then show ?thesis by simp
      next
        case notdue: False
        with True body have "scan' P now (Suc ptr) s = Some y" by simp
        from IH[OF this] obtain n k
          where "scan_steps P now n (Suc ptr, s) = (k, y)" "\<not> k < length (tasks y)"
          by auto
        with True notdue
        have fin: "scan_steps P now (Suc n) (ptr, s) = (k, y) \<and> \<not> k < length (tasks y)"
          by simp
        have "\<exists>n k. scan_steps P now n (ptr, s) = (k, y) \<and> \<not> k < length (tasks y)"
          by (rule exI[where x="Suc n"], rule exI[where x=k], rule fin)
        then show ?thesis by simp
      qed
    qed
  qed
  then show ?thesis by simp
qed


lemma scan_invariant:
  assumes "scan P now ptr s = Some s'"
    and "I (ptr, s)"
    and "\<And>ptr s. I (ptr, s) \<Longrightarrow> ptr < length (tasks s) \<Longrightarrow> nextdue (tasks s ! ptr) \<le> now
           \<Longrightarrow> I (0, hk_execute P now ptr s)"
    and "\<And>ptr s. I (ptr, s) \<Longrightarrow> ptr < length (tasks s) \<Longrightarrow> \<not> nextdue (tasks s ! ptr) \<le> now
           \<Longrightarrow> I (Suc ptr, s)"
  shows "\<exists>k. I (k, s') \<and> \<not> k < length (tasks s')"
proof -
  from scan_Some_steps[OF assms(1)] obtain n k
    where st: "scan_steps P now n (ptr, s) = (k, s')" and k: "\<not> k < length (tasks s')" by blast
  from scan_steps_invariant[of I ptr s now P n, OF assms(2) assms(3) assms(4)] st
  have "I (k, s')" by simp
  with k show ?thesis by blast
qed

lemma scan_leaves_none_due:
  assumes "scan P now 0 s = Some s'"
  shows "\<forall>t\<in>set (tasks s'). now < nextdue t"
proof -
  let ?I = "\<lambda>(ptr, s). \<forall>j<ptr. j < length (tasks s) \<longrightarrow> now < nextdue (tasks s ! j)"
  have "\<exists>k. ?I (k, s') \<and> \<not> k < length (tasks s')"
  proof (rule scan_invariant[OF assms, of ?I])
    show "?I (0, s)" by simp
  next
    fix ptr :: nat and s :: housekeeper
    show "?I (0, hk_execute P now ptr s)" by simp
  next
    fix ptr :: nat and s :: housekeeper
    assume "?I (ptr, s)" and "ptr < length (tasks s)" and "\<not> nextdue (tasks s ! ptr) \<le> now"
    then show "?I (Suc ptr, s)" by (auto simp: less_Suc_eq)
  qed
  then obtain k where k: "\<forall>j<k. j < length (tasks s') \<longrightarrow> now < nextdue (tasks s' ! j)"
      "\<not> k < length (tasks s')" by auto
  show ?thesis
  proof
    fix t assume "t \<in> set (tasks s')"
    then obtain j where "j < length (tasks s')" "tasks s' ! j = t" by (auto simp: in_set_conv_nth)
    with k show "now < nextdue t" by auto
  qed
qed

lemma idle_execute_tasks:
  "type (tasks s ! ptr) = HK_REPEATED \<Longrightarrow>
   tasks (hk_execute idle now ptr s) =
     (tasks s)[ptr := (tasks s ! ptr)\<lparr>nextdue := now + frequency (tasks s ! ptr)\<rparr>]"
  by (simp add: hk_execute_eq call_task_def idle_def)

subsection \<open>Entries that bear a name\<close>

lemma named_simps:
  "named nm [] = []"
  "named nm (t # ts) = (if name t = nm then t # named nm ts else named nm ts)"
  "named nm (ts @ us) = named nm ts @ named nm us"
  by (simp_all add: named_def)

lemma named_empty_iff: "named nm ts = [] \<longleftrightarrow> nm \<notin> name ` set ts"
  by (induction ts) (auto simp: named_simps)

lemma remove_walk_named_other:
  "remove_walk n ts = Some ts' \<Longrightarrow> length (named nm ts') \<le> length (named nm ts)"
proof (induction ts arbitrary: ts')
  case Nil
  then show ?case by simp
next
  case (Cons p rest)
  show ?case
  proof (cases "name p = n")
    case True
    with Cons.prems have "ts' = rest" by simp
    then show ?thesis by (simp add: named_simps)
  next
    case False
    with Cons.prems obtain rest' where r: "remove_walk n rest = Some rest'" "ts' = p # rest'"
      by auto
    from Cons.IH[OF r(1)] r(2) show ?thesis by (simp add: named_simps)
  qed
qed

lemma remove_walk_named_same:
  "remove_walk nm ts = Some ts' \<Longrightarrow> Suc (length (named nm ts')) = length (named nm ts)"
proof (induction ts arbitrary: ts')
  case Nil
  then show ?case by simp
next
  case (Cons p rest)
  show ?case
  proof (cases "name p = nm")
    case True
    with Cons.prems have "ts' = rest" by simp
    with True show ?thesis by (simp add: named_simps)
  next
    case False
    with Cons.prems obtain rest' where r: "remove_walk nm rest = Some rest'" "ts' = p # rest'"
      by auto
    from Cons.IH[OF r(1)] r(2) False show ?thesis by (simp add: named_simps)
  qed
qed

lemma do_call_named:
  "\<not> inserts_name nm c \<Longrightarrow> length (named nm (tasks (do_call c s))) \<le> length (named nm (tasks s))"
proof (cases c)
  case (Call_add heap n taskfn dat freq)
  assume "\<not> inserts_name nm c"
  with Call_add have "n \<noteq> nm" by simp
  then show ?thesis by (simp add: Call_add tasks_hktask_add named_simps)
next
  case (Call_oneshot heap n taskfn dat delay)
  assume "\<not> inserts_name nm c"
  with Call_oneshot have "n \<noteq> nm" by simp
  then show ?thesis by (simp add: Call_oneshot tasks_hktask_oneshot named_simps)
next
  case (Call_remove n)
  show ?thesis
  proof (cases "remove_walk n (tasks s)")
    case None
    then show ?thesis by (simp add: Call_remove tasks_hktask_remove)
  next
    case (Some ts')
    from remove_walk_named_other[OF Some, of nm] show ?thesis
      by (simp add: Call_remove tasks_hktask_remove Some)
  qed
next
  case Call_shutdown
  then show ?thesis by (simp add: hkshutdown_def)
next
  case (Busy ms)
  then show ?thesis by simp
qed

lemma do_calls_named:
  "\<forall>c\<in>set cs. \<not> inserts_name nm c \<Longrightarrow>
     length (named nm (tasks (do_calls cs s))) \<le> length (named nm (tasks s))"
proof (induction cs arbitrary: s)
  case Nil
  then show ?case by simp
next
  case (Cons c cs)
  from Cons.prems have c: "\<not> inserts_name nm c" and cs: "\<forall>c\<in>set cs. \<not> inserts_name nm c"
    by simp_all
  from Cons.IH[OF cs, of "do_call c s"] do_call_named[OF c, of s] show ?case by simp
qed

lemma named_update_only:
  assumes "ptr < length L" and "\<forall>j<length L. j \<noteq> ptr \<longrightarrow> name (L ! j) \<noteq> nm"
  shows "length (named nm (L[ptr := e])) \<le> 1"
proof -
  have upd: "L[ptr := e] = take ptr L @ e # drop (Suc ptr) L"
    using assms(1) by (rule upd_conv_take_nth_drop)
  have "nm \<notin> name ` set (take ptr L)"
  proof
    assume "nm \<in> name ` set (take ptr L)"
    then obtain t where "t \<in> set (take ptr L)" "name t = nm" by auto
    then obtain j where "j < length (take ptr L)" "take ptr L ! j = t"
      by (auto simp: in_set_conv_nth)
    with assms(1) have "j < length L" "j \<noteq> ptr" "L ! j = t" by simp_all
    with assms(2) \<open>name t = nm\<close> show False by auto
  qed
  then have a: "named nm (take ptr L) = []" by (simp add: named_empty_iff)
  have "nm \<notin> name ` set (drop (Suc ptr) L)"
  proof
    assume "nm \<in> name ` set (drop (Suc ptr) L)"
    then obtain t where "t \<in> set (drop (Suc ptr) L)" "name t = nm" by auto
    then obtain j where "j < length (drop (Suc ptr) L)" "drop (Suc ptr) L ! j = t"
      by (auto simp: in_set_conv_nth)
    with assms(1) have "Suc ptr + j < length L" "Suc ptr + j \<noteq> ptr" "L ! (Suc ptr + j) = t"
      by simp_all
    with assms(2) \<open>name t = nm\<close> show False by blast
  qed
  then have b: "named nm (drop (Suc ptr) L) = []" by (simp add: named_empty_iff)
  show ?thesis by (simp add: upd named_simps a b)
qed

lemma call_task_invoked:
  "invoked (call_task P e s) = invoked s @ [Invoked e (time_now s)]"
  by (simp add: call_task_def do_calls_frame)

lemma hk_execute_invoked:
  "invoked (hk_execute P now ptr s) =
     invoked s @ [Invoked ((tasks s ! ptr)\<lparr>nextdue := now + frequency (tasks s ! ptr)\<rparr>) (time_now s)]"
  by (simp add: hk_execute_eq call_task_invoked hktask_remove_frame time_now_def)

lemma oneshot_step:
  assumes "ptr < length (tasks s)"
    and "type (tasks s ! ptr) = HK_ONESHOT"
    and "\<forall>j<length (tasks s). j \<noteq> ptr \<longrightarrow> name (tasks s ! j) \<noteq> name (tasks s ! ptr)"
    and "\<forall>s'. \<forall>c\<in>set (P (task (tasks s ! ptr)) (data (tasks s ! ptr)) s').
           \<not> inserts_name (name (tasks s ! ptr)) c"
  shows "invoked (hk_execute P now ptr s) =
           invoked s @ [Invoked ((tasks s ! ptr)\<lparr>nextdue := now + frequency (tasks s ! ptr)\<rparr>)
                          (time_now s)]
       \<and> name (tasks s ! ptr) \<notin> name ` set (tasks (hk_execute P now ptr s))"
proof
  show "invoked (hk_execute P now ptr s) =
           invoked s @ [Invoked ((tasks s ! ptr)\<lparr>nextdue := now + frequency (tasks s ! ptr)\<rparr>)
                          (time_now s)]"
    by (rule hk_execute_invoked)
next
  define e0 where "e0 = tasks s ! ptr"
  define e where "e = e0\<lparr>nextdue := now + frequency e0\<rparr>"
  define s1 where "s1 = s\<lparr>tasks := (tasks s)[ptr := e], invoked := invoked s @ [Invoked e (time_now s)]\<rparr>"
  define cs where "cs = P (task e0) (data e0) (s\<lparr>tasks := (tasks s)[ptr := e]\<rparr>)"
  define s2 where "s2 = do_calls cs s1"
  have ex: "hk_execute P now ptr s = snd (hktask_remove (name e0) s2)"
    using assms(2)
    by (simp add: hk_execute_eq call_task_def e0_def e_def s1_def s2_def cs_def time_now_def)
  have "length (named (name e0) (tasks s1)) \<le> 1"
    using named_update_only[OF assms(1), of "name e0" e] assms(3)
    by (simp add: s1_def e0_def)
  moreover have "\<forall>c\<in>set cs. \<not> inserts_name (name e0) c"
    using assms(4) by (simp add: cs_def e0_def)
  from do_calls_named[OF this, of s1]
  have "length (named (name e0) (tasks s2)) \<le> length (named (name e0) (tasks s1))"
    by (simp add: s2_def)
  ultimately have le1: "length (named (name e0) (tasks s2)) \<le> 1" by simp
  have "named (name e0) (tasks (snd (hktask_remove (name e0) s2))) = []"
  proof (cases "remove_walk (name e0) (tasks s2)")
    case None
    then have "name e0 \<notin> name ` set (tasks s2)" by (simp add: remove_walk_None)
    with None show ?thesis by (simp add: tasks_hktask_remove named_empty_iff)
  next
    case (Some ts')
    from remove_walk_named_same[OF Some] le1 have "length (named (name e0) ts') = 0" by arith
    then have "named (name e0) ts' = []" by simp
    with Some show ?thesis by (simp add: tasks_hktask_remove)
  qed
  then show "name (tasks s ! ptr) \<notin> name ` set (tasks (hk_execute P now ptr s))"
    by (simp add: ex named_empty_iff e0_def)
qed

subsection \<open>The log of a scan\<close>

lemma call_task_frame:
  "hkheartbeat (call_task P e s) = hkheartbeat s"
  "clock_ms s \<le> clock_ms (call_task P e s)"
proof -
  show "hkheartbeat (call_task P e s) = hkheartbeat s"
    by (simp add: call_task_def do_calls_frame)
  have "clock_ms (s\<lparr>invoked := invoked s @ [Invoked e (time_now s)]\<rparr>)
          \<le> clock_ms (call_task P e s)"
    unfolding call_task_def by (rule do_calls_frame)
  then show "clock_ms s \<le> clock_ms (call_task P e s)" by simp
qed

lemma hk_execute_frame:
  "hkheartbeat (hk_execute P now ptr s) = hkheartbeat s"
  "clock_ms s \<le> clock_ms (hk_execute P now ptr s)"
proof -
  show "hkheartbeat (hk_execute P now ptr s) = hkheartbeat s"
    by (simp add: hk_execute_eq call_task_frame hktask_remove_frame)
  have "clock_ms (s\<lparr>tasks := (tasks s)[ptr := (tasks s ! ptr)\<lparr>nextdue := now + frequency (tasks s ! ptr)\<rparr>]\<rparr>)
      \<le> clock_ms (call_task P ((tasks s ! ptr)\<lparr>nextdue := now + frequency (tasks s ! ptr)\<rparr>)
           (s\<lparr>tasks := (tasks s)[ptr := (tasks s ! ptr)\<lparr>nextdue := now + frequency (tasks s ! ptr)\<rparr>]\<rparr>))"
    by (rule call_task_frame)
  then show "clock_ms s \<le> clock_ms (hk_execute P now ptr s)"
    by (simp add: hk_execute_eq hktask_remove_frame)
qed

lemma scan_steps_stamped:
  assumes "now \<le> time_now s"
  shows "\<exists>evs. invoked (snd (scan_steps P now n (ptr, s))) = invoked s @ evs \<and> stamped now evs"
proof -
  let ?I = "\<lambda>(p, s'). now \<le> time_now s' \<and> (\<exists>evs. invoked s' = invoked s @ evs \<and> stamped now evs)"
  have "?I (scan_steps P now n (ptr, s))"
  proof (rule scan_steps_invariant[of ?I])
    show "?I (ptr, s)" using assms by (simp add: stamped_def)
  next
    fix p :: nat and s' :: housekeeper
    assume I: "?I (p, s')"
    then obtain evs where evs: "invoked s' = invoked s @ evs" "stamped now evs" and clk: "now \<le> time_now s'"
      by auto
    have "time_now s' \<le> time_now (hk_execute P now p s')"
      by (rule time_now_mono) (rule hk_execute_frame)
    with clk have c: "now \<le> time_now (hk_execute P now p s')" by simp
    let ?ev = "Invoked ((tasks s' ! p)\<lparr>nextdue := now + frequency (tasks s' ! p)\<rparr>) (time_now s')"
    have "invoked (hk_execute P now p s') = invoked s @ (evs @ [?ev])"
      by (simp add: hk_execute_invoked evs(1))
    moreover have "stamped now (evs @ [?ev])" using evs(2) clk by (simp add: stamped_def)
    ultimately have "\<exists>evs'. invoked (hk_execute P now p s') = invoked s @ evs' \<and> stamped now evs'"
      by blast
    with c show "?I (0, hk_execute P now p s')" by simp
  next
    fix p :: nat and s' :: housekeeper
    assume "?I (p, s')"
    then show "?I (Suc p, s')" by simp
  qed
  then show ?thesis by (simp add: case_prod_beta)
qed

lemma stamped_drop:
  "invoked s' = invoked s @ evs \<Longrightarrow> stamped now evs \<Longrightarrow>
     \<forall>ev\<in>set (drop (length (invoked s)) (invoked s')).
        nextdue (called ev) = now + frequency (called ev) \<and> now \<le> called_at ev"
  by (simp add: stamped_def)

subsection \<open>Entries that stay in the list\<close>

lemma remove_walk_keeps_other:
  "remove_walk n ts = Some ts' \<Longrightarrow> t \<in> set ts \<Longrightarrow> name t \<noteq> n \<Longrightarrow> t \<in> set ts'"
proof (induction ts arbitrary: ts')
  case Nil
  then show ?case by simp
next
  case (Cons p rest)
  show ?case
  proof (cases "name p = n")
    case True
    with Cons.prems show ?thesis by auto
  next
    case False
    with Cons.prems(1) obtain rest' where r: "remove_walk n rest = Some rest'" "ts' = p # rest'"
      by auto
    show ?thesis
    proof (cases "t = p")
      case True
      with r(2) show ?thesis by simp
    next
      case False
      with Cons.prems(2) have "t \<in> set rest" by simp
      from Cons.IH[OF r(1) this Cons.prems(3)] r(2) show ?thesis by simp
    qed
  qed
qed

lemma hktask_remove_keeps_other:
  "t \<in> set (tasks s) \<Longrightarrow> name t \<noteq> n \<Longrightarrow> t \<in> set (tasks (snd (hktask_remove n s)))"
proof (cases "remove_walk n (tasks s)")
  case None
  assume "t \<in> set (tasks s)"
  with None show ?thesis by (simp add: tasks_hktask_remove)
next
  case (Some ts')
  assume "t \<in> set (tasks s)" "name t \<noteq> n"
  from remove_walk_keeps_other[OF Some this] Some show ?thesis by (simp add: tasks_hktask_remove)
qed

lemma do_call_keeps:
  "c \<noteq> Call_remove (name t) \<Longrightarrow> t \<in> set (tasks s) \<Longrightarrow> t \<in> set (tasks (do_call c s))"
proof (cases c)
  case (Call_add heap n taskfn dat freq)
  assume "t \<in> set (tasks s)"
  then show ?thesis by (simp add: Call_add tasks_hktask_add)
next
  case (Call_oneshot heap n taskfn dat delay)
  assume "t \<in> set (tasks s)"
  then show ?thesis by (simp add: Call_oneshot tasks_hktask_oneshot)
next
  case (Call_remove n)
  assume "c \<noteq> Call_remove (name t)" "t \<in> set (tasks s)"
  with Call_remove have "name t \<noteq> n" "t \<in> set (tasks s)" by auto
  then show ?thesis by (simp add: Call_remove hktask_remove_keeps_other)
next
  case Call_shutdown
  assume "t \<in> set (tasks s)"
  then show ?thesis by (simp add: Call_shutdown hkshutdown_def)
next
  case (Busy ms)
  assume "t \<in> set (tasks s)"
  then show ?thesis by (simp add: Busy)
qed

lemma do_calls_keeps:
  "Call_remove (name t) \<notin> set cs \<Longrightarrow> t \<in> set (tasks s) \<Longrightarrow> t \<in> set (tasks (do_calls cs s))"
proof (induction cs arbitrary: s)
  case Nil
  then show ?case by simp
next
  case (Cons c cs)
  from Cons.prems(1) have c: "c \<noteq> Call_remove (name t)" and cs: "Call_remove (name t) \<notin> set cs"
    by auto
  from Cons.IH[OF cs do_call_keeps[OF c Cons.prems(2)]] show ?case by simp
qed

subsection \<open>The heartbeat\<close>

lemma thread_millisleep_frame:
  "hkheartbeat (thread_millisleep E ms s) = hkheartbeat s"
  "clock_ms s + int ms \<le> clock_ms (thread_millisleep E ms s)"
proof -
  show "hkheartbeat (thread_millisleep E ms s) = hkheartbeat s"
    by (simp add: thread_millisleep_def do_calls_frame)
  have "clock_ms (s\<lparr>clock_ms := clock_ms s + int ms\<rparr>) \<le> clock_ms (thread_millisleep E ms s)"
    unfolding thread_millisleep_def by (rule do_calls_frame)
  then show "clock_ms s + int ms \<le> clock_ms (thread_millisleep E ms s)" by simp
qed

lemma hk_ticks_done:
  "hk_ticks E n s = Inr s' \<Longrightarrow>
     hkheartbeat s' = hkheartbeat s + int n \<and> clock_ms s + 100 * int n \<le> clock_ms s'"
proof (induction n arbitrary: s)
  case 0
  then show ?case by simp
next
  case (Suc n)
  let ?s = "(thread_millisleep E 100 s)\<lparr>hkheartbeat := hkheartbeat (thread_millisleep E 100 s) + 1\<rparr>"
  from Suc.prems have "hk_ticks E n ?s = Inr s'" by (simp split: if_splits)
  from Suc.IH[OF this] thread_millisleep_frame[where E = E and ms = 100 and s = s] show ?case by simp
qed

lemma hk_ticks_stopped:
  "hk_ticks E n s = Inl s' \<Longrightarrow>
     hkheartbeat s \<le> hkheartbeat s' \<and> hkheartbeat s' < hkheartbeat s + int n"
proof (induction n arbitrary: s)
  case 0
  then show ?case by simp
next
  case (Suc n)
  show ?case
  proof (cases "do_shutdown s")
    case True
    with Suc.prems show ?thesis by simp
  next
    case False
    let ?s = "(thread_millisleep E 100 s)\<lparr>hkheartbeat := hkheartbeat (thread_millisleep E 100 s) + 1\<rparr>"
    from Suc.prems False have "hk_ticks E n ?s = Inl s'" by simp
    from Suc.IH[OF this] thread_millisleep_frame(1)[where E = E and ms = 100 and s = s] show ?thesis by simp
  qed
qed

lemma scan_heartbeat:
  assumes "scan P now ptr s = Some s'"
  shows "hkheartbeat s' = hkheartbeat s"
proof -
  let ?I = "\<lambda>(p, u). hkheartbeat u = hkheartbeat s"
  have "\<exists>k. ?I (k, s') \<and> \<not> k < length (tasks s')"
  proof (rule scan_invariant[OF assms, of ?I])
    show "?I (ptr, s)" by simp
  next
    fix p :: nat and u :: housekeeper
    assume "?I (p, u)"
    then show "?I (0, hk_execute P now p u)" by (simp add: hk_execute_frame)
  next
    fix p :: nat and u :: housekeeper
    assume "?I (p, u)"
    then show "?I (Suc p, u)" by simp
  qed
  then show ?thesis by simp
qed

lemma hk_cycle_heartbeat:
  assumes "hk_cycle E P s = Some (Inr s')"
  shows "hkheartbeat s' = hkheartbeat s + 10"
proof (cases "hk_ticks E 10 s")
  case (Inl u)
  with assms show ?thesis by (simp add: hk_cycle_def)
next
  case (Inr u)
  with assms have sc: "scan P (time_now u) 0 u = Some s'" by (auto simp: hk_cycle_def)
  from scan_heartbeat[OF sc] hk_ticks_done[OF Inr] show ?thesis by simp
qed

lemma hkthread_heartbeat:
  assumes "hkthread E P s = Some s'"
  shows "hkheartbeat s \<le> hkheartbeat s'"
proof -
  let ?Q = "\<lambda>((E :: others, P :: program), s) s'. hkheartbeat s \<le> hkheartbeat s'"
  have "?Q ((E, P), s) s'"
  proof (rule hkthread.raw_induct[where Pa = ?Q, OF _ assms])
    fix hkthread' :: "others \<Rightarrow> program \<Rightarrow> housekeeper \<Rightarrow> housekeeper option"
      and E :: others and P :: program and s y :: housekeeper
    assume IH: "\<And>E P s y. hkthread' E P s = Some y \<Longrightarrow> ?Q ((E, P), s) y"
      and body: "(case hk_ticks E 10 s of Inl s' \<Rightarrow> Some s'
                  | Inr s' \<Rightarrow> Option.bind (scan P (time_now s') 0 s') (hkthread' E P)) = Some y"
    show "?Q ((E, P), s) y"
    proof (cases "hk_ticks E 10 s")
      case (Inl u)
      with body have "y = u" by simp
      with hk_ticks_stopped[OF Inl] show ?thesis by simp
    next
      case (Inr u)
      with body obtain v where sc: "scan P (time_now u) 0 u = Some v"
        and th: "hkthread' E P v = Some y"
        by (auto simp: bind_eq_Some_conv)
      from scan_heartbeat[OF sc] IH[OF th] hk_ticks_done[OF Inr] show ?thesis by simp
    qed
  qed
  then show ?thesis by simp
qed

subsection \<open>A one-shot task in a whole scan\<close>

lemma named_split_at:
  "p < length L \<Longrightarrow>
     named nm (L[p := e]) = named nm (take p L) @ named nm [e] @ named nm (drop (Suc p) L)"
  by (simp add: upd_conv_take_nth_drop named_simps)

lemma named_split_id:
  "p < length L \<Longrightarrow>
     named nm L = named nm (take p L) @ named nm [L ! p] @ named nm (drop (Suc p) L)"
  using named_split_at[of p L nm "L ! p"] by simp

lemma named_update_same_name:
  "p < length L \<Longrightarrow> name e = name (L ! p) \<Longrightarrow> name (L ! p) \<noteq> nm \<Longrightarrow>
     named nm (L[p := e]) = named nm L"
  by (simp add: named_split_at named_split_id[of p L nm] named_simps)

lemma named_update_single:
  assumes "p < length L" and "name (L ! p) = nm" and "named nm L = [t]" and "name e = nm"
  shows "named nm (L[p := e]) = [e]"
proof -
  from named_split_id[OF assms(1), of nm] assms(2,3)
  have "named nm (take p L) @ (L ! p) # named nm (drop (Suc p) L) = [t]"
    by (simp add: named_simps)
  then have "named nm (take p L) = []" "named nm (drop (Suc p) L) = []"
    by (simp_all add: append_eq_Cons_conv)
  with assms(1,4) show ?thesis by (simp add: named_split_at named_simps)
qed

lemma remove_walk_named_keep:
  "remove_walk n ts = Some ts' \<Longrightarrow> n \<noteq> nm \<Longrightarrow> named nm ts' = named nm ts"
proof (induction ts arbitrary: ts')
  case Nil
  then show ?case by simp
next
  case (Cons p rest)
  show ?case
  proof (cases "name p = n")
    case True
    with Cons.prems show ?thesis by (auto simp: named_simps)
  next
    case False
    with Cons.prems(1) obtain rest' where r: "remove_walk n rest = Some rest'" "ts' = p # rest'"
      by auto
    from Cons.IH[OF r(1) Cons.prems(2)] r(2) show ?thesis by (simp add: named_simps)
  qed
qed

lemma hktask_remove_named_keep:
  "n \<noteq> nm \<Longrightarrow> named nm (tasks (snd (hktask_remove n s))) = named nm (tasks s)"
proof (cases "remove_walk n (tasks s)")
  case None
  then show ?thesis by (simp add: tasks_hktask_remove)
next
  case (Some ts')
  assume "n \<noteq> nm"
  from remove_walk_named_keep[OF Some this] Some show ?thesis by (simp add: tasks_hktask_remove)
qed

lemma do_call_named_keep:
  "\<not> inserts_name nm c \<Longrightarrow> c \<noteq> Call_remove nm \<Longrightarrow>
     named nm (tasks (do_call c s)) = named nm (tasks s)"
proof (cases c)
  case (Call_add heap n taskfn dat freq)
  assume "\<not> inserts_name nm c"
  with Call_add have "n \<noteq> nm" by simp
  then show ?thesis by (simp add: Call_add tasks_hktask_add named_simps)
next
  case (Call_oneshot heap n taskfn dat delay)
  assume "\<not> inserts_name nm c"
  with Call_oneshot have "n \<noteq> nm" by simp
  then show ?thesis by (simp add: Call_oneshot tasks_hktask_oneshot named_simps)
next
  case (Call_remove n)
  assume "c \<noteq> Call_remove nm"
  with Call_remove have "n \<noteq> nm" by simp
  then show ?thesis by (simp add: Call_remove hktask_remove_named_keep)
next
  case Call_shutdown
  then show ?thesis by (simp add: hkshutdown_def)
next
  case (Busy ms)
  then show ?thesis by simp
qed

lemma do_calls_named_keep:
  "\<forall>c\<in>set cs. \<not> inserts_name nm c \<and> c \<noteq> Call_remove nm \<Longrightarrow>
     named nm (tasks (do_calls cs s)) = named nm (tasks s)"
proof (induction cs arbitrary: s)
  case Nil
  then show ?case by simp
next
  case (Cons c cs)
  from Cons.prems have c: "\<not> inserts_name nm c" "c \<noteq> Call_remove nm"
    and cs: "\<forall>c\<in>set cs. \<not> inserts_name nm c \<and> c \<noteq> Call_remove nm" by simp_all
  from Cons.IH[OF cs, of "do_call c s"] do_call_named_keep[OF c, of s] show ?case by simp
qed

lemma call_task_named_keep:
  "\<forall>f d u. \<forall>c\<in>set (P f d u). \<not> inserts_name nm c \<and> c \<noteq> Call_remove nm \<Longrightarrow>
     named nm (tasks (call_task P e s)) = named nm (tasks s)"
proof -
  assume "\<forall>f d u. \<forall>c\<in>set (P f d u). \<not> inserts_name nm c \<and> c \<noteq> Call_remove nm"
  then have "\<forall>c\<in>set (P (task e) (data e) s). \<not> inserts_name nm c \<and> c \<noteq> Call_remove nm"
    by blast
  from do_calls_named_keep[OF this] show ?thesis by (simp add: call_task_def)
qed

lemma hk_execute_named_other:
  assumes "\<forall>f d u. \<forall>c\<in>set (P f d u). \<not> inserts_name nm c \<and> c \<noteq> Call_remove nm"
    and "p < length (tasks u)" and "name (tasks u ! p) \<noteq> nm"
  shows "named nm (tasks (hk_execute P now p u)) = named nm (tasks u)"
proof -
  define e where "e = (tasks u ! p)\<lparr>nextdue := now + frequency (tasks u ! p)\<rparr>"
  define u1 where "u1 = u\<lparr>tasks := (tasks u)[p := e]\<rparr>"
  have "named nm (tasks u1) = named nm (tasks u)"
    using named_update_same_name[OF assms(2) _ assms(3), of e] by (simp add: u1_def e_def)
  with call_task_named_keep[OF assms(1), of e u1]
  have c: "named nm (tasks (call_task P e u1)) = named nm (tasks u)" by simp
  from hktask_remove_named_keep[OF assms(3), of "call_task P e u1"] c
  show ?thesis by (simp add: hk_execute_eq e_def u1_def)
qed

lemma hk_execute_named_self:
  assumes "\<forall>f d u. \<forall>c\<in>set (P f d u). \<not> inserts_name nm c \<and> c \<noteq> Call_remove nm"
    and "p < length (tasks u)" and "name (tasks u ! p) = nm" and "named nm (tasks u) = [t]"
    and "type t = HK_ONESHOT"
  shows "named nm (tasks (hk_execute P now p u)) = []"
proof -
  define e where "e = (tasks u ! p)\<lparr>nextdue := now + frequency (tasks u ! p)\<rparr>"
  define u1 where "u1 = u\<lparr>tasks := (tasks u)[p := e]\<rparr>"
  have "tasks u ! p \<in> set (named nm (tasks u))"
    using assms(2,3) by (simp add: named_def)
  with assms(4) have tp: "tasks u ! p = t" by simp
  have ne: "name e = nm" using assms(3) by (simp add: e_def)
  from named_update_single[OF assms(2,3,4) ne]
  have "named nm (tasks u1) = [e]" by (simp add: u1_def)
  with call_task_named_keep[OF assms(1), of e u1]
  have c: "named nm (tasks (call_task P e u1)) = [e]" by simp
  then have "nm \<in> name ` set (tasks (call_task P e u1))"
    using named_empty_iff[of nm "tasks (call_task P e u1)"] by auto
  then obtain ts' where rw: "remove_walk nm (tasks (call_task P e u1)) = Some ts'"
    using remove_walk_None[of nm "tasks (call_task P e u1)"]
    by (cases "remove_walk nm (tasks (call_task P e u1))") auto
  from remove_walk_named_same[OF rw] c have "length (named nm ts') = 0" by simp
  then have "named nm ts' = []" by simp
  with rw tp assms(3,5) show ?thesis
    by (simp add: hk_execute_eq e_def u1_def tasks_hktask_remove)
qed

lemma calls_of_simps:
  "calls_of nm [] = []"
  "calls_of nm (evs @ evs') = calls_of nm evs @ calls_of nm evs'"
  "calls_of nm [ev] = (if name (called ev) = nm then [ev] else [])"
  by (simp_all add: calls_of_def)

lemma scan_oneshot_once:
  assumes ret: "scan P now 0 s = Some s'"
    and t: "named (name t) (tasks s) = [t]" "type t = HK_ONESHOT" "nextdue t \<le> now"
    and prog: "\<forall>f d u. \<forall>c\<in>set (P f d u). \<not> inserts_name (name t) c \<and> c \<noteq> Call_remove (name t)"
  shows "length (calls_of (name t) (drop (length (invoked s)) (invoked s'))) = 1
       \<and> name t \<notin> name ` set (tasks s')"
proof -
  let ?nm = "name t"
  let ?I = "\<lambda>(p, u). \<exists>evs. invoked u = invoked s @ evs \<and>
     ((calls_of ?nm evs = [] \<and> named ?nm (tasks u) = [t])
      \<or> (length (calls_of ?nm evs) = 1 \<and> named ?nm (tasks u) = []))"
  have "\<exists>k. ?I (k, s') \<and> \<not> k < length (tasks s')"
  proof (rule scan_invariant[OF ret, of ?I])
    show "?I (0, s)" using t(1) by (simp add: calls_of_simps)
  next
    fix p :: nat and u :: housekeeper
    assume "?I (p, u)" and p: "p < length (tasks u)"
    then obtain evs where evs: "invoked u = invoked s @ evs"
      and dis: "(calls_of ?nm evs = [] \<and> named ?nm (tasks u) = [t])
                \<or> (length (calls_of ?nm evs) = 1 \<and> named ?nm (tasks u) = [])" by auto
    let ?e = "(tasks u ! p)\<lparr>nextdue := now + frequency (tasks u ! p)\<rparr>"
    let ?ev = "Invoked ?e (time_now u)"
    have inv: "invoked (hk_execute P now p u) = invoked s @ (evs @ [?ev])"
      by (simp add: hk_execute_invoked evs)
    have "(calls_of ?nm (evs @ [?ev]) = [] \<and> named ?nm (tasks (hk_execute P now p u)) = [t])
          \<or> (length (calls_of ?nm (evs @ [?ev])) = 1 \<and> named ?nm (tasks (hk_execute P now p u)) = [])"
    proof (cases "name (tasks u ! p) = ?nm")
      case True
      then have "tasks u ! p \<in> set (named ?nm (tasks u))" using p by (simp add: named_def)
      with dis have first: "calls_of ?nm evs = []" "named ?nm (tasks u) = [t]" by auto
      from hk_execute_named_self[OF prog p True first(2) t(2)] first(1) True
      show ?thesis by (simp add: calls_of_simps)
    next
      case False
      from hk_execute_named_other[OF prog p False] dis False
      show ?thesis by (simp add: calls_of_simps)
    qed
    with inv have "\<exists>evs'. invoked (hk_execute P now p u) = invoked s @ evs' \<and>
        ((calls_of ?nm evs' = [] \<and> named ?nm (tasks (hk_execute P now p u)) = [t])
          \<or> (length (calls_of ?nm evs') = 1 \<and> named ?nm (tasks (hk_execute P now p u)) = []))"
      by blast
    then show "?I (0, hk_execute P now p u)" by simp
  next
    fix p :: nat and u :: housekeeper
    assume "?I (p, u)"
    then show "?I (Suc p, u)" by simp
  qed
  then obtain evs where evs: "invoked s' = invoked s @ evs"
    and dis: "(calls_of ?nm evs = [] \<and> named ?nm (tasks s') = [t])
                \<or> (length (calls_of ?nm evs) = 1 \<and> named ?nm (tasks s') = [])" by auto
  from scan_leaves_none_due[OF ret] t(3) have "t \<notin> set (tasks s')" by force
  have "named ?nm (tasks s') \<noteq> [t]"
  proof
    assume "named ?nm (tasks s') = [t]"
    then have "t \<in> set (named ?nm (tasks s'))" by simp
    then have "t \<in> set (tasks s')" by (simp add: named_def)
    with \<open>t \<notin> set (tasks s')\<close> show False by simp
  qed
  with dis have "length (calls_of ?nm evs) = 1" "named ?nm (tasks s') = []" by auto
  with evs show ?thesis by (simp add: named_empty_iff)
qed

subsection \<open>Task functions that neither insert nor remove\<close>

lemma inert_later: "inert c \<Longrightarrow> inserts_later c"
  by (cases c) simp_all

lemma do_call_inert: "inert c \<Longrightarrow> tasks (do_call c s) = tasks s"
  by (cases c) (simp_all add: hkshutdown_def)

lemma do_calls_inert: "\<forall>c\<in>set cs. inert c \<Longrightarrow> tasks (do_calls cs s) = tasks s"
proof (induction cs arbitrary: s)
  case Nil
  then show ?case by simp
next
  case (Cons c cs)
  from Cons.prems have c: "inert c" and cs: "\<forall>c\<in>set cs. inert c" by simp_all
  from Cons.IH[OF cs, of "do_call c s"] do_call_inert[OF c, of s] show ?case by simp
qed

lemma hk_execute_inert:
  assumes "\<forall>f d u. \<forall>c\<in>set (P f d u). inert c" and "type (tasks s ! ptr) = HK_REPEATED"
  shows "tasks (hk_execute P now ptr s) =
           (tasks s)[ptr := (tasks s ! ptr)\<lparr>nextdue := now + frequency (tasks s ! ptr)\<rparr>]"
proof -
  let ?e = "(tasks s ! ptr)\<lparr>nextdue := now + frequency (tasks s ! ptr)\<rparr>"
  let ?s1 = "s\<lparr>tasks := (tasks s)[ptr := ?e]\<rparr>"
  have "\<forall>c\<in>set (P (task ?e) (data ?e) ?s1). inert c" using assms(1) by blast
  from do_calls_inert[OF this] have "tasks (call_task P ?e ?s1) = tasks ?s1"
    by (simp add: call_task_def)
  with assms(2) show ?thesis by (simp add: hk_execute_eq)
qed

lemma hk_execute_keeps_written:
  assumes "ptr < length (tasks s)" and "type (tasks s ! ptr) = HK_REPEATED"
    and "Call_remove (name (tasks s ! ptr)) \<notin>
           set (P (task (tasks s ! ptr)) (data (tasks s ! ptr))
                  (s\<lparr>tasks := (tasks s)[ptr := (tasks s ! ptr)\<lparr>nextdue := now + frequency (tasks s ! ptr)\<rparr>]\<rparr>))"
  shows "(tasks s ! ptr)\<lparr>nextdue := now + frequency (tasks s ! ptr)\<rparr>
           \<in> set (tasks (hk_execute P now ptr s))"
proof -
  let ?e = "(tasks s ! ptr)\<lparr>nextdue := now + frequency (tasks s ! ptr)\<rparr>"
  let ?s1 = "s\<lparr>tasks := (tasks s)[ptr := ?e]\<rparr>"
  let ?s2 = "?s1\<lparr>invoked := invoked ?s1 @ [Invoked ?e (time_now ?s1)]\<rparr>"
  have "?e \<in> set (tasks ?s2)" using assms(1) by (simp add: set_update_memI)
  moreover have "Call_remove (name ?e) \<notin> set (P (task ?e) (data ?e) ?s1)" using assms(3) by simp
  ultimately have "?e \<in> set (tasks (do_calls (P (task ?e) (data ?e) ?s1) ?s2))"
    by (rule do_calls_keeps[rotated])
  with assms(2) show ?thesis by (simp add: hk_execute_eq call_task_def)
qed

lemma scan_inert_tasks:
  assumes ret: "scan P now 0 s = Some s'"
    and rep: "\<forall>t\<in>set (tasks s). type t = HK_REPEATED"
    and prog: "\<forall>f d u. \<forall>c\<in>set (P f d u). inert c"
  shows "tasks s' = map (rescheduled now) (tasks s)"
proof -
  let ?L = "tasks s"
  let ?I = "\<lambda>(p, u). length (tasks u) = length ?L \<and>
     (\<forall>j<length ?L. tasks u ! j = ?L ! j \<or>
        (nextdue (?L ! j) \<le> now \<and> tasks u ! j = (?L ! j)\<lparr>nextdue := now + frequency (?L ! j)\<rparr>))"
  have "\<exists>k. ?I (k, s') \<and> \<not> k < length (tasks s')"
  proof (rule scan_invariant[OF ret, of ?I])
    show "?I (0, s)" by simp
  next
    fix p :: nat and u :: housekeeper
    assume I: "?I (p, u)" and p: "p < length (tasks u)" and due: "nextdue (tasks u ! p) \<le> now"
    from I have len: "length (tasks u) = length ?L"
      and ent: "\<forall>j<length ?L. tasks u ! j = ?L ! j \<or>
        (nextdue (?L ! j) \<le> now \<and> tasks u ! j = (?L ! j)\<lparr>nextdue := now + frequency (?L ! j)\<rparr>)"
      by simp_all
    from p len have pL: "p < length ?L" by simp
    with rep have "type (?L ! p) = HK_REPEATED" by simp
    with ent pL have ty: "type (tasks u ! p) = HK_REPEATED" by auto
    let ?e = "(tasks u ! p)\<lparr>nextdue := now + frequency (tasks u ! p)\<rparr>"
    from hk_execute_inert[OF prog ty] have ex: "tasks (hk_execute P now p u) = (tasks u)[p := ?e]" .
    have new: "nextdue (?L ! p) \<le> now \<and> ?e = (?L ! p)\<lparr>nextdue := now + frequency (?L ! p)\<rparr>"
      using ent pL due by auto
    have "\<forall>j<length ?L. (tasks u)[p := ?e] ! j = ?L ! j \<or>
        (nextdue (?L ! j) \<le> now \<and> (tasks u)[p := ?e] ! j = (?L ! j)\<lparr>nextdue := now + frequency (?L ! j)\<rparr>)"
    proof (intro allI impI)
      fix j assume j: "j < length ?L"
      show "(tasks u)[p := ?e] ! j = ?L ! j \<or>
        (nextdue (?L ! j) \<le> now \<and> (tasks u)[p := ?e] ! j = (?L ! j)\<lparr>nextdue := now + frequency (?L ! j)\<rparr>)"
      proof (cases "j = p")
        case True
        with new p show ?thesis by simp
      next
        case False
        with ent j show ?thesis by simp
      qed
    qed
    with len ex show "?I (0, hk_execute P now p u)" by simp
  next
    fix p :: nat and u :: housekeeper
    assume "?I (p, u)"
    then show "?I (Suc p, u)" by simp
  qed
  then have len: "length (tasks s') = length ?L"
    and ent: "\<forall>j<length ?L. tasks s' ! j = ?L ! j \<or>
        (nextdue (?L ! j) \<le> now \<and> tasks s' ! j = (?L ! j)\<lparr>nextdue := now + frequency (?L ! j)\<rparr>)"
    by simp_all
  note none = scan_leaves_none_due[OF ret]
  show ?thesis
  proof (rule nth_equalityI)
    show "length (tasks s') = length (map (rescheduled now) ?L)" using len by simp
  next
    fix j assume "j < length (tasks s')"
    with len have j: "j < length ?L" by simp
    with len have "tasks s' ! j \<in> set (tasks s')" by simp
    with none have nd: "now < nextdue (tasks s' ! j)" by blast
    from ent j have "tasks s' ! j = ?L ! j \<or>
        (nextdue (?L ! j) \<le> now \<and> tasks s' ! j = (?L ! j)\<lparr>nextdue := now + frequency (?L ! j)\<rparr>)"
      by blast
    then have "tasks s' ! j = rescheduled now (?L ! j)"
    proof
      assume eq: "tasks s' ! j = ?L ! j"
      with nd show ?thesis by (simp add: rescheduled_def)
    next
      assume "nextdue (?L ! j) \<le> now \<and> tasks s' ! j = (?L ! j)\<lparr>nextdue := now + frequency (?L ! j)\<rparr>"
      then show ?thesis by (simp add: rescheduled_def)
    qed
    with j show "tasks s' ! j = map (rescheduled now) ?L ! j" by simp
  qed
qed

lemma scan_inert_returns:
  assumes clk: "now \<le> time_now s"
    and rep: "\<forall>t\<in>set (tasks s). type t = HK_REPEATED \<and> 1 \<le> frequency t"
    and prog: "\<forall>f d u. \<forall>c\<in>set (P f d u). inert c"
  shows "\<exists>s'. scan P now 0 s = Some s' \<and>
           tasks s' = map (\<lambda>t. if nextdue t \<le> now then t\<lparr>nextdue := now + frequency t\<rparr> else t)
                        (tasks s)"
proof -
  have later: "\<forall>f d u. \<forall>c\<in>set (P f d u). inserts_later c"
    using prog inert_later by blast
  have rp: "repeated_positive (tasks s)" using rep by (simp add: repeated_positive_def)
  from scan_returns[OF later clk rp] obtain s' where ret: "scan P now 0 s = Some s'" by blast
  have "\<forall>t\<in>set (tasks s). type t = HK_REPEATED" using rep by simp
  from scan_inert_tasks[OF ret this prog]
  have "tasks s' = map (\<lambda>t. if nextdue t \<le> now then t\<lparr>nextdue := now + frequency t\<rparr> else t)
                        (tasks s)"
    by (simp add: rescheduled_def[abs_def])
  with ret show ?thesis by blast
qed

subsection \<open>The measure when only the entries of other names have positive frequencies\<close>











subsection \<open>A due entry of a name is reached, and a scan that cannot end\<close>












subsection \<open>The call that inserts a due task\<close>




section \<open>The claims\<close>

text \<open>
  C1, as amended. When the housekeeper thread executes a one-shot task whose name no other
  entry of the list bears, and whose task function makes no call that inserts that name,
  the function is called exactly once in that step and, when the step is over, no entry
  of the list bears the name. The task function may itself call \<^verbatim>\<open>hktask_remove\<close> on
  its own name: the second removal finds nothing and changes nothing.
  For the whole scan: when a due one-shot task is the only entry with its name and no
  task function inserts or removes that name, a scan that returns has called the task
  exactly once, and no entry bears the name when it returns.
\<close>

theorem oneshot_called_once_then_absent:
  "(ptr < length (tasks s) \<and> type (tasks s ! ptr) = HK_ONESHOT
      \<and> (\<forall>j<length (tasks s). j \<noteq> ptr \<longrightarrow> name (tasks s ! j) \<noteq> name (tasks s ! ptr))
      \<and> (\<forall>u. \<forall>c\<in>set (P (task (tasks s ! ptr)) (data (tasks s ! ptr)) u).
             \<not> inserts_name (name (tasks s ! ptr)) c)
     \<longrightarrow> invoked (hk_execute P now ptr s) =
           invoked s @ [Invoked ((tasks s ! ptr)\<lparr>nextdue := now + frequency (tasks s ! ptr)\<rparr>)
                          (time_now s)]
       \<and> name (tasks s ! ptr) \<notin> name ` set (tasks (hk_execute P now ptr s)))
   \<and> (scan P now 0 s = Some s' \<and> named (name t) (tasks s) = [t] \<and> type t = HK_ONESHOT
      \<and> nextdue t \<le> now
      \<and> (\<forall>f d u. \<forall>c\<in>set (P f d u). \<not> inserts_name (name t) c \<and> c \<noteq> Call_remove (name t))
     \<longrightarrow> length (calls_of (name t) (drop (length (invoked s)) (invoked s'))) = 1
       \<and> name t \<notin> name ` set (tasks s'))"
proof (intro conjI impI)
  assume a: "ptr < length (tasks s) \<and> type (tasks s ! ptr) = HK_ONESHOT
      \<and> (\<forall>j<length (tasks s). j \<noteq> ptr \<longrightarrow> name (tasks s ! j) \<noteq> name (tasks s ! ptr))
      \<and> (\<forall>u. \<forall>c\<in>set (P (task (tasks s ! ptr)) (data (tasks s ! ptr)) u).
             \<not> inserts_name (name (tasks s ! ptr)) c)"
  show "invoked (hk_execute P now ptr s) =
           invoked s @ [Invoked ((tasks s ! ptr)\<lparr>nextdue := now + frequency (tasks s ! ptr)\<rparr>)
                          (time_now s)]"
    by (rule hk_execute_invoked)
  from a have a1: "ptr < length (tasks s)" and a2: "type (tasks s ! ptr) = HK_ONESHOT"
    and a3: "\<forall>j<length (tasks s). j \<noteq> ptr \<longrightarrow> name (tasks s ! j) \<noteq> name (tasks s ! ptr)"
    and a4: "\<forall>u. \<forall>c\<in>set (P (task (tasks s ! ptr)) (data (tasks s ! ptr)) u).
             \<not> inserts_name (name (tasks s ! ptr)) c" by simp_all
  from oneshot_step[where P = P, OF a1 a2 a3 a4]
  show "name (tasks s ! ptr) \<notin> name ` set (tasks (hk_execute P now ptr s))" by simp
next
  assume b: "scan P now 0 s = Some s' \<and> named (name t) (tasks s) = [t] \<and> type t = HK_ONESHOT
      \<and> nextdue t \<le> now
      \<and> (\<forall>f d u. \<forall>c\<in>set (P f d u). \<not> inserts_name (name t) c \<and> c \<noteq> Call_remove (name t))"
  then have b1: "scan P now 0 s = Some s'" and b2: "named (name t) (tasks s) = [t]"
    and b3: "type t = HK_ONESHOT" and b4: "nextdue t \<le> now"
    and b5: "\<forall>f d u. \<forall>c\<in>set (P f d u). \<not> inserts_name (name t) c \<and> c \<noteq> Call_remove (name t)"
    by simp_all
  from scan_oneshot_once[OF b1 b2 b3 b4 b5]
  show "length (calls_of (name t) (drop (length (invoked s)) (invoked s'))) = 1"
    and "name t \<notin> name ` set (tasks s')" by simp_all
qed

text \<open>
  C1, two instances: the one-shot task \<open>boot\<close> removes itself in its task
  function; the one-shot task \<open>b\<close> is called once in a scan and is gone after it.
\<close>

theorem oneshot_called_once_then_absent_witness:
  "invoked (hk_execute demo 100 (Suc 0)
        (registry [entry ''ping'' 1 HK_REPEATED 5 105, entry ''boot'' 2 HK_ONESHOT 0 100] 100000))
      = [Invoked (entry ''boot'' 2 HK_ONESHOT 0 100) 100]
   \<and> ''boot'' \<notin> name ` set (tasks (hk_execute demo 100 (Suc 0)
        (registry [entry ''ping'' 1 HK_REPEATED 5 105, entry ''boot'' 2 HK_ONESHOT 0 100] 100000)))
   \<and> scan demo 100 0 (registry [entry ''ping'' 1 HK_REPEATED 5 105,
                                 entry ''b'' 4 HK_ONESHOT 0 100] 100000)
      = Some \<lparr>tasks = [entry ''ping'' 1 HK_REPEATED 5 105], do_shutdown = False,
               hkheartbeat = 0, clock_ms = 100000,
               invoked = [Invoked (entry ''b'' 4 HK_ONESHOT 0 100) 100]\<rparr>
   \<and> length (calls_of ''b'' [Invoked (entry ''b'' 4 HK_ONESHOT 0 100) 100]) = 1
   \<and> ''b'' \<notin> name ` set [entry ''ping'' 1 HK_REPEATED 5 105]"
proof -
  let ?s = "registry [entry ''ping'' 1 HK_REPEATED 5 105, entry ''boot'' 2 HK_ONESHOT 0 100] 100000"
  let ?r = "registry [entry ''ping'' 1 HK_REPEATED 5 105, entry ''b'' 4 HK_ONESHOT 0 100] 100000"
  let ?u = "\<lparr>tasks = [entry ''ping'' 1 HK_REPEATED 5 105], do_shutdown = False,
               hkheartbeat = 0, clock_ms = 100000,
               invoked = [Invoked (entry ''b'' 4 HK_ONESHOT 0 100) 100]\<rparr>"
  let ?t = "entry ''b'' 4 HK_ONESHOT 0 100"
  have step: "Suc 0 < length (tasks ?s) \<and> type (tasks ?s ! Suc 0) = HK_ONESHOT
      \<and> (\<forall>j<length (tasks ?s). j \<noteq> Suc 0 \<longrightarrow> name (tasks ?s ! j) \<noteq> name (tasks ?s ! Suc 0))
      \<and> (\<forall>u. \<forall>c\<in>set (demo (task (tasks ?s ! Suc 0)) (data (tasks ?s ! Suc 0)) u).
             \<not> inserts_name (name (tasks ?s ! Suc 0)) c)"
    by (simp add: registry_def entry_def demo_def less_Suc_eq)
  have ret: "scan demo 100 0 ?r = Some ?u"
    by (simp add: scan.simps hk_execute_def call_task_def demo_def hktask_remove_def
          registry_def entry_def time_now_def Let_def)
  have whole: "scan demo 100 0 ?r = Some ?u \<and> named (name ?t) (tasks ?r) = [?t]
      \<and> type ?t = HK_ONESHOT \<and> nextdue ?t \<le> 100
      \<and> (\<forall>f d u. \<forall>c\<in>set (demo f d u). \<not> inserts_name (name ?t) c \<and> c \<noteq> Call_remove (name ?t))"
    using ret by (simp add: registry_def entry_def demo_def named_def)
  note a = oneshot_called_once_then_absent[where P = demo and s = ?s and ptr = "Suc 0" and now = 100,
      THEN conjunct1, THEN mp, OF step]
  note b = oneshot_called_once_then_absent[where P = demo and s = ?r and now = 100 and s' = ?u
      and t = ?t, THEN conjunct2, THEN mp, OF whole]
  have a1: "invoked (hk_execute demo 100 (Suc 0) ?s) = [Invoked (entry ''boot'' 2 HK_ONESHOT 0 100) 100]"
    using a by (simp add: registry_def entry_def time_now_def)
  have a2: "''boot'' \<notin> name ` set (tasks (hk_execute demo 100 (Suc 0) ?s))"
    using a by (simp add: registry_def entry_def)
  have b1: "length (calls_of ''b'' [Invoked (entry ''b'' 4 HK_ONESHOT 0 100) 100]) = 1"
    using b by (simp add: registry_def entry_def)
  have b2: "''b'' \<notin> name ` set [entry ''ping'' 1 HK_REPEATED 5 105]"
    using b by (simp add: entry_def)
  from a1 a2 ret b1 b2 show ?thesis by (intro conjI)
qed

text \<open>
  C1 as stated fails when another entry bears the name of the one-shot task. Here a
  repeated task \<open>x\<close>, not due, stands before the due one-shot task \<open>x\<close>, whose task
  function makes no call at all. After the one-shot task has run, \<^verbatim>\<open>hktask_remove\<close>
  unlinks the repeated task, the first entry with the name; the one-shot task stays in the
  list, still due, and the scan calls it a second time.
\<close>

theorem oneshot_namesake_removed_instead:
  "tasks (hk_execute idle 100 1
      (registry [entry ''x'' 1 HK_REPEATED 60 150, entry ''x'' 2 HK_ONESHOT 0 100] 100000))
     = [entry ''x'' 2 HK_ONESHOT 0 100]
   \<and> map_option invoked
       (scan idle 100 0
          (registry [entry ''x'' 1 HK_REPEATED 60 150, entry ''x'' 2 HK_ONESHOT 0 100] 100000))
     = Some [Invoked (entry ''x'' 2 HK_ONESHOT 0 100) 100,
             Invoked (entry ''x'' 2 HK_ONESHOT 0 100) 100]"
  by (simp add: scan.simps hk_execute_def call_task_def idle_def hktask_remove_def
        registry_def entry_def time_now_def Let_def)

text \<open>
  C2, as amended. The value that the thread writes into the entry of the task it calls
  is \<open>now + frequency\<close>, where \<open>now\<close> is the one clock reading taken before the scan
  began, not the wall clock of the call. For one call: the entry of a repeated task, with
  that \<^verbatim>\<open>nextdue\<close> and nothing else changed, is in the list when the call is over,
  unless the task function removes the task's own name; and when the task functions
  neither insert nor remove, the list after the call is the list before it with that one
  entry rewritten. For a whole scan of repeated tasks with frequencies of at least one
  second and such task functions: the scan returns, and every entry that was due has
  \<^verbatim>\<open>nextdue = now + frequency\<close> in the list it returns, every other entry is as it
  was. And for every program: each call logged in a scan, after any number of iterations
  and in the state a scan returns, was made with \<^verbatim>\<open>nextdue = now + frequency\<close>
  written into the entry, and not before \<open>now\<close> when the wall clock was not behind
  \<open>now\<close> at the start.
\<close>

theorem nextdue_from_scan_clock:
  "(ptr < length (tasks s) \<and> type (tasks s ! ptr) = HK_REPEATED
      \<and> Call_remove (name (tasks s ! ptr)) \<notin>
           set (P (task (tasks s ! ptr)) (data (tasks s ! ptr))
                  (s\<lparr>tasks := (tasks s)[ptr := (tasks s ! ptr)\<lparr>nextdue := now + frequency (tasks s ! ptr)\<rparr>]\<rparr>))
     \<longrightarrow> (tasks s ! ptr)\<lparr>nextdue := now + frequency (tasks s ! ptr)\<rparr>
           \<in> set (tasks (hk_execute P now ptr s)))
   \<and> (type (tasks s ! ptr) = HK_REPEATED \<and> (\<forall>f d u. \<forall>c\<in>set (P f d u). inert c)
     \<longrightarrow> tasks (hk_execute P now ptr s) =
           (tasks s)[ptr := (tasks s ! ptr)\<lparr>nextdue := now + frequency (tasks s ! ptr)\<rparr>])
   \<and> (now \<le> time_now s \<and> (\<forall>t\<in>set (tasks s). type t = HK_REPEATED \<and> 1 \<le> frequency t)
      \<and> (\<forall>f d u. \<forall>c\<in>set (P f d u). inert c)
     \<longrightarrow> (\<exists>s'. scan P now 0 s = Some s' \<and>
            tasks s' = map (\<lambda>t. if nextdue t \<le> now then t\<lparr>nextdue := now + frequency t\<rparr> else t)
                         (tasks s)))
   \<and> (now \<le> time_now s
     \<longrightarrow> (\<forall>n. \<forall>ev\<in>set (drop (length (invoked s)) (invoked (snd (scan_steps P now n (ptr, s))))).
            nextdue (called ev) = now + frequency (called ev) \<and> now \<le> called_at ev))
   \<and> (now \<le> time_now s \<and> scan P now ptr s = Some s'
     \<longrightarrow> (\<forall>ev\<in>set (drop (length (invoked s)) (invoked s')).
            nextdue (called ev) = now + frequency (called ev) \<and> now \<le> called_at ev))"
proof (intro conjI impI allI)
  assume "ptr < length (tasks s) \<and> type (tasks s ! ptr) = HK_REPEATED
      \<and> Call_remove (name (tasks s ! ptr)) \<notin>
           set (P (task (tasks s ! ptr)) (data (tasks s ! ptr))
                  (s\<lparr>tasks := (tasks s)[ptr := (tasks s ! ptr)\<lparr>nextdue := now + frequency (tasks s ! ptr)\<rparr>]\<rparr>))"
  then show "(tasks s ! ptr)\<lparr>nextdue := now + frequency (tasks s ! ptr)\<rparr>
           \<in> set (tasks (hk_execute P now ptr s))"
    using hk_execute_keeps_written[of ptr s P now] by simp
next
  assume "type (tasks s ! ptr) = HK_REPEATED \<and> (\<forall>f d u. \<forall>c\<in>set (P f d u). inert c)"
  then show "tasks (hk_execute P now ptr s) =
           (tasks s)[ptr := (tasks s ! ptr)\<lparr>nextdue := now + frequency (tasks s ! ptr)\<rparr>]"
    using hk_execute_inert[of P s ptr now] by simp
next
  assume "now \<le> time_now s \<and> (\<forall>t\<in>set (tasks s). type t = HK_REPEATED \<and> 1 \<le> frequency t)
      \<and> (\<forall>f d u. \<forall>c\<in>set (P f d u). inert c)"
  then show "\<exists>s'. scan P now 0 s = Some s' \<and>
            tasks s' = map (\<lambda>t. if nextdue t \<le> now then t\<lparr>nextdue := now + frequency t\<rparr> else t)
                         (tasks s)"
    using scan_inert_returns[of now s P] by simp
next
  fix n
  assume clk: "now \<le> time_now s"
  from scan_steps_stamped[OF clk, of P n ptr] obtain evs
    where "invoked (snd (scan_steps P now n (ptr, s))) = invoked s @ evs" "stamped now evs"
    by blast
  then show "\<forall>ev\<in>set (drop (length (invoked s)) (invoked (snd (scan_steps P now n (ptr, s))))).
            nextdue (called ev) = now + frequency (called ev) \<and> now \<le> called_at ev"
    by (rule stamped_drop)
next
  assume a: "now \<le> time_now s \<and> scan P now ptr s = Some s'"
  then have clk: "now \<le> time_now s" and ret: "scan P now ptr s = Some s'" by simp_all
  from scan_Some_steps[OF ret] obtain n k where st: "scan_steps P now n (ptr, s) = (k, s')"
    by blast
  from scan_steps_stamped[OF clk, of P n ptr] st obtain evs
    where "invoked s' = invoked s @ evs" "stamped now evs"
    by auto
  then show "\<forall>ev\<in>set (drop (length (invoked s)) (invoked s')).
               nextdue (called ev) = now + frequency (called ev) \<and> now \<le> called_at ev"
    by (rule stamped_drop)
qed

text \<open>
  C2, instances: one call of the task \<open>ping\<close>, one call and a whole scan of two
  repeated tasks of which the first takes five seconds, and the log of a scan, whole and
  after three iterations.
\<close>

theorem nextdue_from_scan_clock_witness:
  "entry ''ping'' 1 HK_REPEATED 5 105
     \<in> set (tasks (hk_execute demo 100 0
          (registry [entry ''ping'' 1 HK_REPEATED 5 100, entry ''boot'' 2 HK_ONESHOT 0 99] 100000)))
   \<and> tasks (hk_execute slow 100 0
        (registry [entry ''a'' 1 HK_REPEATED 10 100, entry ''b'' 2 HK_REPEATED 10 100] 100000))
     = [entry ''a'' 1 HK_REPEATED 10 110, entry ''b'' 2 HK_REPEATED 10 100]
   \<and> (\<exists>s'. scan slow 100 0
        (registry [entry ''a'' 1 HK_REPEATED 10 100, entry ''b'' 2 HK_REPEATED 10 100] 100000)
          = Some s'
        \<and> tasks s' = [entry ''a'' 1 HK_REPEATED 10 110, entry ''b'' 2 HK_REPEATED 10 110])
   \<and> scan demo 100 0 (registry [entry ''ping'' 1 HK_REPEATED 5 100,
                                 entry ''boot'' 2 HK_ONESHOT 0 99] 100000)
     = Some \<lparr>tasks = [entry ''ping'' 1 HK_REPEATED 5 105, entry ''late'' 3 HK_ONESHOT 0 103],
              do_shutdown = False, hkheartbeat = 0, clock_ms = 101500,
              invoked = [Invoked (entry ''ping'' 1 HK_REPEATED 5 105) 100,
                         Invoked (entry ''boot'' 2 HK_ONESHOT 0 100) 101]\<rparr>
   \<and> list_all (\<lambda>ev. nextdue (called ev) = 100 + frequency (called ev) \<and> 100 \<le> called_at ev)
        [Invoked (entry ''ping'' 1 HK_REPEATED 5 105) 100,
         Invoked (entry ''boot'' 2 HK_ONESHOT 0 100) 101]
   \<and> list_all (\<lambda>ev. nextdue (called ev) = 100 + frequency (called ev) \<and> 100 \<le> called_at ev)
        (invoked (snd (scan_steps demo 100 3
           (0, registry [entry ''ping'' 1 HK_REPEATED 5 100,
                         entry ''boot'' 2 HK_ONESHOT 0 99] 100000))))
   \<and> invoked (snd (scan_steps demo 100 3
           (0, registry [entry ''ping'' 1 HK_REPEATED 5 100,
                         entry ''boot'' 2 HK_ONESHOT 0 99] 100000)))
     = [Invoked (entry ''ping'' 1 HK_REPEATED 5 105) 100,
        Invoked (entry ''boot'' 2 HK_ONESHOT 0 100) 101]"
proof -
  let ?s = "registry [entry ''ping'' 1 HK_REPEATED 5 100, entry ''boot'' 2 HK_ONESHOT 0 99] 100000"
  let ?r = "registry [entry ''a'' 1 HK_REPEATED 10 100, entry ''b'' 2 HK_REPEATED 10 100] 100000"
  let ?u = "\<lparr>tasks = [entry ''ping'' 1 HK_REPEATED 5 105, entry ''late'' 3 HK_ONESHOT 0 103],
              do_shutdown = False, hkheartbeat = 0, clock_ms = 101500,
              invoked = [Invoked (entry ''ping'' 1 HK_REPEATED 5 105) 100,
                         Invoked (entry ''boot'' 2 HK_ONESHOT 0 100) 101]\<rparr>"
  have h1: "0 < length (tasks ?s) \<and> type (tasks ?s ! 0) = HK_REPEATED
      \<and> Call_remove (name (tasks ?s ! 0)) \<notin>
           set (demo (task (tasks ?s ! 0)) (data (tasks ?s ! 0))
                  (?s\<lparr>tasks := (tasks ?s)[0 := (tasks ?s ! 0)\<lparr>nextdue := 100 + frequency (tasks ?s ! 0)\<rparr>]\<rparr>))"
    by (simp add: registry_def entry_def demo_def)
  have inert: "\<forall>f d u. \<forall>c\<in>set (slow f d u). inert c" by (simp add: slow_def)
  have h2: "type (tasks ?r ! 0) = HK_REPEATED \<and> (\<forall>f d u. \<forall>c\<in>set (slow f d u). inert c)"
    using inert by (simp add: registry_def entry_def)
  have h3: "100 \<le> time_now ?r \<and> (\<forall>t\<in>set (tasks ?r). type t = HK_REPEATED \<and> 1 \<le> frequency t)
      \<and> (\<forall>f d u. \<forall>c\<in>set (slow f d u). inert c)"
    using inert by (simp add: registry_def entry_def time_now_def)
  have ret: "scan demo 100 0 ?s = Some ?u"
    by (simp add: scan.simps hk_execute_def call_task_def demo_def hktask_remove_def
          hktask_oneshot_def registry_def entry_def time_now_def Let_def)
  have h5: "100 \<le> time_now ?s \<and> scan demo 100 0 ?s = Some ?u"
    using ret by (simp add: registry_def time_now_def)
  have a: "entry ''ping'' 1 HK_REPEATED 5 105 \<in> set (tasks (hk_execute demo 100 0 ?s))"
    using nextdue_from_scan_clock[where P = demo and s = ?s and ptr = 0 and now = 100,
        THEN conjunct1, THEN mp, OF h1]
    by (simp add: registry_def entry_def)
  have b: "tasks (hk_execute slow 100 0 ?r)
      = [entry ''a'' 1 HK_REPEATED 10 110, entry ''b'' 2 HK_REPEATED 10 100]"
    using nextdue_from_scan_clock[where P = slow and s = ?r and ptr = 0 and now = 100,
        THEN conjunct2, THEN conjunct1, THEN mp, OF h2]
    by (simp add: registry_def entry_def)
  have c: "\<exists>s'. scan slow 100 0 ?r = Some s'
        \<and> tasks s' = [entry ''a'' 1 HK_REPEATED 10 110, entry ''b'' 2 HK_REPEATED 10 110]"
    using nextdue_from_scan_clock[where P = slow and s = ?r and now = 100,
        THEN conjunct2, THEN conjunct2, THEN conjunct1, THEN mp, OF h3]
    by (simp add: registry_def entry_def)
  have d: "list_all (\<lambda>ev. nextdue (called ev) = 100 + frequency (called ev) \<and> 100 \<le> called_at ev)
        [Invoked (entry ''ping'' 1 HK_REPEATED 5 105) 100,
         Invoked (entry ''boot'' 2 HK_ONESHOT 0 100) 101]"
    using nextdue_from_scan_clock[where P = demo and s = ?s and ptr = 0 and now = 100 and s' = ?u,
        THEN conjunct2, THEN conjunct2, THEN conjunct2, THEN conjunct2, THEN mp, OF h5]
    by (simp add: registry_def)
  have h4: "100 \<le> time_now ?s" by (simp add: registry_def time_now_def)
  have e: "list_all (\<lambda>ev. nextdue (called ev) = 100 + frequency (called ev) \<and> 100 \<le> called_at ev)
        (invoked (snd (scan_steps demo 100 3 (0, ?s))))"
    using nextdue_from_scan_clock[where P = demo and s = ?s and ptr = 0 and now = 100,
        THEN conjunct2, THEN conjunct2, THEN conjunct2, THEN conjunct1, THEN mp, OF h4,
        THEN spec, of 3]
    by (simp add: list_all_iff registry_def)
  have f: "invoked (snd (scan_steps demo 100 3 (0, ?s)))
     = [Invoked (entry ''ping'' 1 HK_REPEATED 5 105) 100,
        Invoked (entry ''boot'' 2 HK_ONESHOT 0 100) 101]"
    by (simp add: eval_nat_numeral hk_execute_def call_task_def demo_def hktask_remove_def
          hktask_oneshot_def registry_def entry_def time_now_def Let_def)
  from a b c ret d e f show ?thesis by (intro conjI)
qed

text \<open>
  C2 as stated fails when an earlier task function of the same scan takes time. The
  tasks \<open>a\<close> and \<open>b\<close> are both due at 100 with frequency 10, and the task function of
  \<open>a\<close> runs for five seconds. The thread calls \<open>b\<close> at wall-clock time 105 and has
  written 110 as its \<^verbatim>\<open>nextdue\<close>: the clock reading of the scan plus the frequency,
  not 105 + 10.
\<close>

theorem nextdue_behind_execution_time:
  "hk_cycle quiet slow
     (registry [entry ''a'' 1 HK_REPEATED 10 100, entry ''b'' 2 HK_REPEATED 10 100] 99000)
   = Some (Inr
       \<lparr>tasks = [entry ''a'' 1 HK_REPEATED 10 110, entry ''b'' 2 HK_REPEATED 10 110],
        do_shutdown = False, hkheartbeat = 10, clock_ms = 105000,
        invoked = [Invoked (entry ''a'' 1 HK_REPEATED 10 110) 100,
                   Invoked (entry ''b'' 2 HK_REPEATED 10 110) 105]\<rparr>)"
  by (simp add: hk_cycle_def eval_nat_numeral thread_millisleep_def quiet_def
        scan.simps hk_execute_def call_task_def slow_def
        registry_def entry_def time_now_def Let_def)

text \<open>
  C3, as amended. When every repeated entry of the list has a frequency of at least one
  second, the wall clock is not behind the clock reading \<open>now\<close> of the scan, and the task
  functions insert only tasks with a frequency or delay of at least one second, then the
  scan returns, and in the list it returns no entry is due.
\<close>

theorem scan_terminates:
  assumes "\<forall>f d s'. \<forall>c\<in>set (P f d s'). inserts_later c"
    and "now \<le> time_now s"
    and "repeated_positive (tasks s)"
  shows "\<exists>s'. scan P now 0 s = Some s' \<and> (\<forall>t\<in>set (tasks s'). now < nextdue t)"
proof -
  from scan_returns[OF assms] obtain s' where "scan P now 0 s = Some s'" by blast
  with scan_leaves_none_due[OF this] show ?thesis by blast
qed

text \<open>
  C3, an instance: a repeated task whose function takes time and inserts a one-shot
  task, and a one-shot task that removes itself.
\<close>

theorem scan_terminates_witness:
  "100 \<le> time_now (registry [entry ''ping'' 1 HK_REPEATED 5 100,
                              entry ''boot'' 2 HK_ONESHOT 0 99] 100000)
   \<and> repeated_positive (tasks (registry [entry ''ping'' 1 HK_REPEATED 5 100,
                                          entry ''boot'' 2 HK_ONESHOT 0 99] 100000))
   \<and> list_all inserts_later (demo 1 0 (hk_initial 0))
   \<and> (\<exists>s'. scan demo 100 0 (registry [entry ''ping'' 1 HK_REPEATED 5 100,
                                        entry ''boot'' 2 HK_ONESHOT 0 99] 100000) = Some s'
           \<and> (\<forall>t\<in>set (tasks s'). 100 < nextdue t))"
proof -
  let ?s = "registry [entry ''ping'' 1 HK_REPEATED 5 100, entry ''boot'' 2 HK_ONESHOT 0 99] 100000"
  have h1: "\<forall>f d s'. \<forall>c\<in>set (demo f d s'). inserts_later c" by (simp add: demo_def)
  have h2: "100 \<le> time_now ?s" by (simp add: registry_def time_now_def)
  have h3: "repeated_positive (tasks ?s)" by (simp add: repeated_positive_def registry_def entry_def)
  have h4: "list_all inserts_later (demo 1 0 (hk_initial 0))" by (simp add: demo_def)
  from h2 h3 h4 scan_terminates[where P = demo, OF h1 h2 h3] show ?thesis by (intro conjI)
qed

text \<open>
  C3 as stated fails for a repeated task with frequency 0: the thread writes
  \<^verbatim>\<open>nextdue = now + 0\<close>, the entry is due again when the scan starts over from the
  head, and the scan never returns.
\<close>

theorem scan_interval_zero_loops:
  "scan idle 100 0 (registry [entry ''a'' 1 HK_REPEATED 0 100] 100000) = None"
proof (cases "scan idle 100 0 (registry [entry ''a'' 1 HK_REPEATED 0 100] 100000)")
  case None
  then show ?thesis .
next
  case (Some s')
  let ?I = "\<lambda>(ptr, s). ptr = 0 \<and> tasks s = [entry ''a'' 1 HK_REPEATED 0 100]"
  have "\<exists>k. ?I (k, s') \<and> \<not> k < length (tasks s')"
  proof (rule scan_invariant[OF Some, of ?I])
    show "?I (0, registry [entry ''a'' 1 HK_REPEATED 0 100] 100000)"
      by (simp add: registry_def)
  next
    fix ptr :: nat and s :: housekeeper
    assume "?I (ptr, s)"
    then have "ptr = 0" "tasks s = [entry ''a'' 1 HK_REPEATED 0 100]" by simp_all
    then show "?I (0, hk_execute idle 100 ptr s)"
      by (simp add: idle_execute_tasks entry_def)
  next
    fix ptr :: nat and s :: housekeeper
    assume "?I (ptr, s)" and "\<not> nextdue (tasks s ! ptr) \<le> 100"
    then show "?I (Suc ptr, s)" by (simp add: entry_def)
  qed
  then show ?thesis by auto
qed

text \<open>
  C4, as amended. \<^verbatim>\<open>hktask_add\<close> compares the new name with every entry of the
  list, one-shot entries included. When the allocations succeed, it fails as a duplicate
  exactly when some entry of either type bears the name; it then returns 0 and leaves
  the state as it was. Otherwise it appends the new repeated entry and returns its
  \<^verbatim>\<open>nextdue\<close>.
\<close>

theorem hktask_add_rejects_any_namesake:
  "hktask_add Alloc_ok nm taskfn dat freq s =
     (if nm \<in> name ` set (tasks s) then (Inl DuplicateName, s)
      else (Inr (time_now s + freq),
            s\<lparr>tasks := tasks s @ [\<lparr>name = nm, task = taskfn, data = dat, frequency = freq,
                                     nextdue = time_now s + freq, type = HK_REPEATED\<rparr>]\<rparr>))
   \<and> (fst (hktask_add heap nm taskfn dat freq s) = Inl DuplicateName
        \<longleftrightarrow> heap = Alloc_ok \<and> nm \<in> name ` set (tasks s))
   \<and> (fst (hktask_add heap nm taskfn dat freq s) = Inl DuplicateName
        \<longrightarrow> c_return (fst (hktask_add heap nm taskfn dat freq s)) = 0
          \<and> snd (hktask_add heap nm taskfn dat freq s) = s)"
  by (simp add: hktask_add_def add_walk_eq Let_def)

text \<open>
  C4, an instance of the duplicate case.
\<close>

theorem hktask_add_rejects_any_namesake_witness:
  "fst (hktask_add Alloc_ok ''x'' 1 0 60 (registry [entry ''x'' 2 HK_ONESHOT 0 130] 100000))
     = Inl DuplicateName
   \<and> c_return (fst (hktask_add Alloc_ok ''x'' 1 0 60
          (registry [entry ''x'' 2 HK_ONESHOT 0 130] 100000))) = 0
   \<and> snd (hktask_add Alloc_ok ''x'' 1 0 60 (registry [entry ''x'' 2 HK_ONESHOT 0 130] 100000))
     = registry [entry ''x'' 2 HK_ONESHOT 0 130] 100000"
proof -
  have dup: "fst (hktask_add Alloc_ok ''x'' 1 0 60
      (registry [entry ''x'' 2 HK_ONESHOT 0 130] 100000)) = Inl DuplicateName"
    by (simp add: hktask_add_def registry_def entry_def Let_def)
  from hktask_add_rejects_any_namesake[THEN conjunct2, THEN conjunct2, THEN mp, OF dup] dup
  show ?thesis by simp
qed

text \<open>
  C4 as stated fails: the name \<open>x\<close> is held by a one-shot entry only, and
  \<^verbatim>\<open>hktask_add\<close> rejects the repeated task \<open>x\<close>.
\<close>

theorem hktask_add_oneshot_name_rejected:
  "hktask_add Alloc_ok ''x'' 1 0 60 (registry [entry ''x'' 2 HK_ONESHOT 0 130] 100000)
     = (Inl DuplicateName, registry [entry ''x'' 2 HK_ONESHOT 0 130] 100000)"
  by (simp add: hktask_add_def registry_def entry_def Let_def)

text \<open>
  C5, as amended. The heartbeat starts at 0. Each 100 ms sleep of the thread is followed
  by one increment: when the \<open>n\<close> ticks of the loop are done, the heartbeat has grown
  by exactly \<open>n\<close> and at least \<open>100 * n\<close> ms have passed; when the loop is left for a
  shutdown, it has grown by less than \<open>n\<close> and has not shrunk. A whole round of ten
  ticks, the scan included, adds exactly 10. Nothing else writes the counter: from the
  start of the thread to its return the heartbeat does not decrease.
\<close>

theorem heartbeat_once_per_tick:
  "hkheartbeat (hk_initial ms) = 0
   \<and> (hk_ticks E n s = Inr s' \<longrightarrow>
        hkheartbeat s' = hkheartbeat s + int n \<and> clock_ms s + 100 * int n \<le> clock_ms s')
   \<and> (hk_ticks E n s = Inl s' \<longrightarrow>
        hkheartbeat s \<le> hkheartbeat s' \<and> hkheartbeat s' < hkheartbeat s + int n)
   \<and> (hk_cycle E P s = Some (Inr s') \<longrightarrow> hkheartbeat s' = hkheartbeat s + 10)
   \<and> (hkthread E P s = Some s' \<longrightarrow> hkheartbeat s \<le> hkheartbeat s')"
proof (intro conjI impI)
  show "hkheartbeat (hk_initial ms) = 0" by (simp add: hk_initial_def)
next
  assume "hk_ticks E n s = Inr s'"
  from hk_ticks_done[OF this]
  show "hkheartbeat s' = hkheartbeat s + int n" and "clock_ms s + 100 * int n \<le> clock_ms s'"
    by simp_all
next
  assume "hk_ticks E n s = Inl s'"
  from hk_ticks_stopped[OF this]
  show "hkheartbeat s \<le> hkheartbeat s'" and "hkheartbeat s' < hkheartbeat s + int n"
    by simp_all
next
  assume "hk_cycle E P s = Some (Inr s')"
  then show "hkheartbeat s' = hkheartbeat s + 10" by (rule hk_cycle_heartbeat)
next
  assume "hkthread E P s = Some s'"
  then show "hkheartbeat s \<le> hkheartbeat s'" by (rule hkthread_heartbeat)
qed

text \<open>
  C5, instances: ten ticks with no shutdown; a shutdown that another thread asks for
  during the fourth sleep; a one-shot task that shuts the housekeeper down in the first
  round.
\<close>

theorem heartbeat_once_per_tick_witness:
  "hk_ticks quiet 10 (hk_initial 0)
     = Inr \<lparr>tasks = [], do_shutdown = False, hkheartbeat = 10, clock_ms = 1000, invoked = []\<rparr>
   \<and> hkheartbeat \<lparr>tasks = [], do_shutdown = False, hkheartbeat = 10, clock_ms = 1000,
                   invoked = []\<rparr> = hkheartbeat (hk_initial 0) + int 10
   \<and> hk_ticks stop_at_three 10 (hk_initial 0)
     = Inl \<lparr>tasks = [], do_shutdown = True, hkheartbeat = 4, clock_ms = 400, invoked = []\<rparr>
   \<and> hkheartbeat \<lparr>tasks = [], do_shutdown = True, hkheartbeat = 4, clock_ms = 400,
                   invoked = []\<rparr> < hkheartbeat (hk_initial 0) + int 10
   \<and> hk_cycle quiet demo (registry [entry ''halt'' 9 HK_ONESHOT 0 0] 0)
       = Some (Inr \<lparr>tasks = [], do_shutdown = True, hkheartbeat = 10, clock_ms = 1000,
                     invoked = [Invoked (entry ''halt'' 9 HK_ONESHOT 0 1) 1]\<rparr>)
   \<and> hkthread quiet demo (registry [entry ''halt'' 9 HK_ONESHOT 0 0] 0)
       = Some \<lparr>tasks = [], do_shutdown = True, hkheartbeat = 10, clock_ms = 1000,
                invoked = [Invoked (entry ''halt'' 9 HK_ONESHOT 0 1) 1]\<rparr>
   \<and> hkheartbeat \<lparr>tasks = [], do_shutdown = True, hkheartbeat = 10, clock_ms = 1000,
                invoked = [Invoked (entry ''halt'' 9 HK_ONESHOT 0 1) 1]\<rparr>
       = hkheartbeat (registry [entry ''halt'' 9 HK_ONESHOT 0 0] 0) + 10
   \<and> hkheartbeat (registry [entry ''halt'' 9 HK_ONESHOT 0 0] 0)
       \<le> hkheartbeat \<lparr>tasks = [], do_shutdown = True, hkheartbeat = 10, clock_ms = 1000,
                invoked = [Invoked (entry ''halt'' 9 HK_ONESHOT 0 1) 1]\<rparr>"
proof -
  let ?i = "hk_initial 0"
  let ?d = "\<lparr>tasks = [], do_shutdown = False, hkheartbeat = 10, clock_ms = 1000, invoked = []\<rparr>"
  let ?x = "\<lparr>tasks = [], do_shutdown = True, hkheartbeat = 4, clock_ms = 400, invoked = []\<rparr>"
  let ?s = "registry [entry ''halt'' 9 HK_ONESHOT 0 0] 0"
  let ?u = "\<lparr>tasks = [], do_shutdown = True, hkheartbeat = 10, clock_ms = 1000,
             invoked = [Invoked (entry ''halt'' 9 HK_ONESHOT 0 1) 1]\<rparr>"
  have full: "hk_ticks quiet 10 ?i = Inr ?d"
    by (simp add: hk_initial_def eval_nat_numeral thread_millisleep_def quiet_def)
  have stopped: "hk_ticks stop_at_three 10 ?i = Inl ?x"
    by (simp add: hk_initial_def eval_nat_numeral thread_millisleep_def stop_at_three_def
          hkshutdown_def)
  have cyc: "hk_cycle quiet demo ?s = Some (Inr ?u)"
    by (simp add: hk_cycle_def eval_nat_numeral thread_millisleep_def quiet_def
          scan.simps hk_execute_def call_task_def demo_def hktask_remove_def hkshutdown_def
          registry_def entry_def time_now_def Let_def)
  have thr: "hkthread quiet demo ?s = Some ?u"
    by (simp add: hkthread.simps eval_nat_numeral thread_millisleep_def quiet_def
          scan.simps hk_execute_def call_task_def demo_def hktask_remove_def hkshutdown_def
          registry_def entry_def time_now_def Let_def)
  note t1 = heartbeat_once_per_tick[where E = quiet and n = 10 and s = ?i and s' = ?d,
      THEN conjunct2, THEN conjunct1, THEN mp, OF full, THEN conjunct1]
  note t2 = heartbeat_once_per_tick[where E = stop_at_three and n = 10 and s = ?i and s' = ?x,
      THEN conjunct2, THEN conjunct2, THEN conjunct1, THEN mp, OF stopped, THEN conjunct2]
  note t3 = heartbeat_once_per_tick[where E = quiet and P = demo and s = ?s and s' = ?u,
      THEN conjunct2, THEN conjunct2, THEN conjunct2, THEN conjunct1, THEN mp, OF cyc]
  note t4 = heartbeat_once_per_tick[where E = quiet and P = demo and s = ?s and s' = ?u,
      THEN conjunct2, THEN conjunct2, THEN conjunct2, THEN conjunct2, THEN mp, OF thr]
  from full t1 stopped t2 cyc thr t3 t4 show ?thesis by (intro conjI)
qed

text \<open>
  C5 as stated fails: after the ten ticks of the first round, with no task at all, the
  heartbeat is 10, not 1.
\<close>

theorem heartbeat_ten_per_cycle:
  "hk_cycle quiet idle (hk_initial 0)
   = Some (Inr \<lparr>tasks = [], do_shutdown = False, hkheartbeat = 10, clock_ms = 1000, invoked = []\<rparr>)"
  by (simp add: hk_cycle_def hk_initial_def eval_nat_numeral thread_millisleep_def quiet_def
        scan.simps)







text \<open>
  C8. When no entry bears the name, \<^verbatim>\<open>hktask_remove\<close> returns 0 and leaves the
  state as it was. When some entry does, it returns 1 and unlinks the first entry with the
  name: the entries before it, none of which bears the name, and the entries after it stay
  as they are, in their order, and nothing else of the state changes.
\<close>

theorem hktask_remove_first_match:
  "(nm \<notin> name ` set (tasks s) \<longrightarrow> hktask_remove nm s = (0, s)) \<and>
   (nm \<in> name ` set (tasks s) \<longrightarrow>
      (\<exists>pre e post. tasks s = pre @ e # post \<and> name e = nm \<and> nm \<notin> name ` set pre \<and>
         hktask_remove nm s = (1, s\<lparr>tasks := pre @ post\<rparr>)))"
proof (intro conjI impI)
  assume "nm \<notin> name ` set (tasks s)"
  then have "remove_walk nm (tasks s) = None" by (simp add: remove_walk_None)
  then show "hktask_remove nm s = (0, s)" by (simp add: hktask_remove_def)
next
  assume "nm \<in> name ` set (tasks s)"
  then obtain pre e post where sp: "tasks s = pre @ e # post" "name e = nm" "nm \<notin> name ` set pre"
    using first_match_split by blast
  then have "remove_walk nm (tasks s) = Some (pre @ post)" by (simp add: remove_walk_first)
  then have "hktask_remove nm s = (1, s\<lparr>tasks := pre @ post\<rparr>)" by (simp add: hktask_remove_def)
  with sp have "tasks s = pre @ e # post \<and> name e = nm \<and> nm \<notin> name ` set pre \<and>
         hktask_remove nm s = (1, s\<lparr>tasks := pre @ post\<rparr>)" by simp
  then show "\<exists>pre e post. tasks s = pre @ e # post \<and> name e = nm \<and> nm \<notin> name ` set pre \<and>
         hktask_remove nm s = (1, s\<lparr>tasks := pre @ post\<rparr>)" by (intro exI)
qed

text \<open>
  C8, two instances: a name that is absent, and a name that two entries bear.
\<close>

theorem hktask_remove_first_match_witness:
  "hktask_remove ''c'' (registry [entry ''a'' 1 HK_REPEATED 5 105] 100000)
     = (0, registry [entry ''a'' 1 HK_REPEATED 5 105] 100000)
   \<and> (\<exists>pre e post.
        tasks (registry [entry ''b'' 1 HK_REPEATED 5 105, entry ''a'' 2 HK_ONESHOT 0 101,
                         entry ''a'' 3 HK_ONESHOT 0 102] 100000) = pre @ e # post
        \<and> name e = ''a'' \<and> ''a'' \<notin> name ` set pre
        \<and> hktask_remove ''a''
             (registry [entry ''b'' 1 HK_REPEATED 5 105, entry ''a'' 2 HK_ONESHOT 0 101,
                        entry ''a'' 3 HK_ONESHOT 0 102] 100000)
            = (1, (registry [entry ''b'' 1 HK_REPEATED 5 105, entry ''a'' 2 HK_ONESHOT 0 101,
                             entry ''a'' 3 HK_ONESHOT 0 102] 100000)\<lparr>tasks := pre @ post\<rparr>))"
proof -
  have absent: "''c'' \<notin> name ` set (tasks (registry [entry ''a'' 1 HK_REPEATED 5 105] 100000))"
    by (simp add: registry_def entry_def)
  have present: "''a'' \<in> name ` set (tasks (registry [entry ''b'' 1 HK_REPEATED 5 105,
      entry ''a'' 2 HK_ONESHOT 0 101, entry ''a'' 3 HK_ONESHOT 0 102] 100000))"
    by (simp add: registry_def entry_def)
  from hktask_remove_first_match[THEN conjunct1, THEN mp, OF absent]
       hktask_remove_first_match[THEN conjunct2, THEN mp, OF present]
  show ?thesis by (rule conjI)
qed

text \<open>
  C9, as amended. \<^verbatim>\<open>hkshow_tasks\<close> writes the two header lines before it takes the
  lock, and writes one row for every entry of the list, in list order and with the name,
  type, frequency and \<^verbatim>\<open>nextdue\<close> of that entry, while it holds the lock. It takes
  the lock once and releases it once, in that order: the lock is not given up between two
  rows. The release is the last step of the function, after the last row.
\<close>

theorem hkshow_tasks_rows_under_lock:
  "writes_under_lock False (hkshow_tasks s)
     = [(False, Header), (False, Separator)]
       @ map (\<lambda>ptr. (True, Row (name ptr)
                (if type ptr = HK_REPEATED then ''Repeated'' else ''One-Shot'')
                (frequency ptr) (nextdue ptr))) (tasks s)
   \<and> filter (\<lambda>st. st = Spinlock_acquire \<or> st = Spinlock_release) (hkshow_tasks s)
       = [Spinlock_acquire, Spinlock_release]
   \<and> last (hkshow_tasks s) = Spinlock_release"
proof (intro conjI)
  show "writes_under_lock False (hkshow_tasks s)
     = [(False, Header), (False, Separator)]
       @ map (\<lambda>ptr. (True, Row (name ptr)
                (if type ptr = HK_REPEATED then ''Repeated'' else ''One-Shot'')
                (frequency ptr) (nextdue ptr))) (tasks s)"
    by (rule hkshow_tasks_writes)
  show "filter (\<lambda>st. st = Spinlock_acquire \<or> st = Spinlock_release) (hkshow_tasks s)
       = [Spinlock_acquire, Spinlock_release]"
    by (rule hkshow_tasks_lock_steps)
  show "last (hkshow_tasks s) = Spinlock_release"
    by (simp add: hkshow_tasks_def)
qed

text \<open>
  C9 as stated fails as soon as the list has an entry: its row is written with the lock
  held.
\<close>

theorem hkshow_tasks_lock_held_at_write:
  "writes_under_lock False (hkshow_tasks (registry [entry ''a'' 1 HK_REPEATED 5 105] 100000))
     = [(False, Header), (False, Separator), (True, Row ''a'' ''Repeated'' 5 105)]"
  by (simp add: hkshow_tasks_def registry_def entry_def show_row_def)

text \<open>
  C10. A successful \<^verbatim>\<open>hktask_add\<close> and a successful \<^verbatim>\<open>hktask_oneshot\<close> leave the
  list as it was and put the new entry behind its last entry; a failed one leaves the
  list as it was. \<^verbatim>\<open>hktask_remove\<close> takes the first entry with the name out of the
  list and leaves the entries before and behind it in their order. \<^verbatim>\<open>hkshow_tasks\<close>
  writes the header lines and then one row for each entry, in list order, with the
  name, type, frequency and \<^verbatim>\<open>nextdue\<close> of that entry.
\<close>

theorem insertion_at_tail:
  "tasks (snd (hktask_add heap nm taskfn dat freq s)) =
     (if heap = Alloc_ok \<and> nm \<notin> name ` set (tasks s)
      then tasks s @ [\<lparr>name = nm, task = taskfn, data = dat, frequency = freq,
                        nextdue = time_now s + freq, type = HK_REPEATED\<rparr>]
      else tasks s)
   \<and> tasks (snd (hktask_oneshot heap nm taskfn dat when s)) =
     (if heap = Alloc_ok
      then tasks s @ [\<lparr>name = nm, task = taskfn, data = dat, frequency = 0,
                        nextdue = time_now s + when, type = HK_ONESHOT\<rparr>]
      else tasks s)
   \<and> tasks (snd (hktask_remove nm s)) =
       takeWhile (\<lambda>t. name t \<noteq> nm) (tasks s) @ tl (dropWhile (\<lambda>t. name t \<noteq> nm) (tasks s))
   \<and> map snd (writes_under_lock False (hkshow_tasks s))
       = [Header, Separator]
         @ map (\<lambda>t. Row (name t) (if type t = HK_REPEATED then ''Repeated'' else ''One-Shot'')
                    (frequency t) (nextdue t)) (tasks s)"
proof (intro conjI)
  show "tasks (snd (hktask_add heap nm taskfn dat freq s)) =
     (if heap = Alloc_ok \<and> nm \<notin> name ` set (tasks s)
      then tasks s @ [\<lparr>name = nm, task = taskfn, data = dat, frequency = freq,
                        nextdue = time_now s + freq, type = HK_REPEATED\<rparr>]
      else tasks s)"
    by (simp add: hktask_add_def add_walk_eq Let_def)
  show "tasks (snd (hktask_oneshot heap nm taskfn dat when s)) =
     (if heap = Alloc_ok
      then tasks s @ [\<lparr>name = nm, task = taskfn, data = dat, frequency = 0,
                        nextdue = time_now s + when, type = HK_ONESHOT\<rparr>]
      else tasks s)"
    by (simp add: hktask_oneshot_def oneshot_walk_eq Let_def)
  show "tasks (snd (hktask_remove nm s)) =
       takeWhile (\<lambda>t. name t \<noteq> nm) (tasks s) @ tl (dropWhile (\<lambda>t. name t \<noteq> nm) (tasks s))"
    by (simp add: hktask_remove_def remove_walk_takeWhile takeWhile_absent)
  show "map snd (writes_under_lock False (hkshow_tasks s))
       = [Header, Separator]
         @ map (\<lambda>t. Row (name t) (if type t = HK_REPEATED then ''Repeated'' else ''One-Shot'')
                    (frequency t) (nextdue t)) (tasks s)"
    by (simp add: hkshow_tasks_writes o_def)
qed

end
